theory Spec2Isabelle
  imports Main "HOL-Library.Sublist"
begin

section \<open>The vacuum-world planner (planner.py)\<close>

subsection \<open>Data model\<close>

text \<open>
  A position is a Python tuple \<^verbatim>\<open>(row, col)\<close> of unbounded integers. The parser leaves
  \<^verbatim>\<open>start = None\<close> when the file has no agent marker, so the position field of a
  \<^verbatim>\<open>State\<close> is optional. The dirty field is a \<^verbatim>\<open>frozenset\<close> of positions. Equality
  of states is structural over both fields (\<^verbatim>\<open>__eq__\<close>, \<^verbatim>\<open>__hash__\<close>), which is equality of
  the record.

  Actions are the Python strings \<^verbatim>\<open>'N'\<close>, \<^verbatim>\<open>'S'\<close>, \<^verbatim>\<open>'E'\<close>, \<^verbatim>\<open>'W'\<close>, \<^verbatim>\<open>'V'\<close>. The grid is a list
  of rows, each a list of characters.
\<close>

type_synonym pos = "int \<times> int"

record state =
  position :: "pos option"
  dirty :: "pos set"

definition State :: "pos option \<Rightarrow> pos set \<Rightarrow> state" where
  "State p d = \<lparr>position = p, dirty = d\<rparr>"

type_synonym action = string

type_synonym grid = "char list list"

datatype error = TypeError | IndexError | KeyError | ValueError | OSError | UnicodeDecodeError

text \<open>\<^verbatim>\<open>MOVES\<close>: a dict, iterated in insertion order.\<close>

definition MOVES :: "(action \<times> int \<times> int) list" where
  "MOVES = [(''N'', (-1, 0)), (''S'', (1, 0)), (''E'', (0, 1)), (''W'', (0, -1))]"

subsection \<open>Successor generation\<close>

text \<open>
  The loop of \<^verbatim>\<open>get_neighbors\<close> over \<^verbatim>\<open>MOVES.items()\<close>, with the list \<^verbatim>\<open>neighbors\<close> as
  accumulator. The column bound is taken from row 0 (\<^verbatim>\<open>len(grid[0])\<close>, evaluated only
  when the row index is in range, so the grid is not empty there); the read
  \<^verbatim>\<open>grid[nr][nc]\<close> raises IndexError when row \<^verbatim>\<open>nr\<close> is shorter than that.
\<close>

fun move_neighbors ::
  "state \<Rightarrow> grid \<Rightarrow> int \<Rightarrow> int \<Rightarrow> (action \<times> int \<times> int) list \<Rightarrow> (action \<times> state) list
    \<Rightarrow> error + (action \<times> state) list" where
  "move_neighbors st grid r c [] neighbors = Inr neighbors"
| "move_neighbors st grid r c ((a, dr, dc) # ms) neighbors =
     (let nr = r + dr; nc = c + dc in
      if 0 \<le> nr \<and> nr < int (length grid) \<and> 0 \<le> nc \<and> nc < int (length (grid ! 0)) then
        (if nc < int (length (grid ! nat nr)) then
           (if grid ! nat nr ! nat nc \<noteq> CHR ''#''
            then move_neighbors st grid r c ms (neighbors @ [(a, State (Some (nr, nc)) (dirty st))])
            else move_neighbors st grid r c ms neighbors)
         else Inl IndexError)
      else move_neighbors st grid r c ms neighbors)"

text \<open>
  \<^verbatim>\<open>r, c = state.position\<close> raises TypeError on \<^verbatim>\<open>None\<close>. The vacuum successor is appended
  after the moves when the position is in the dirty set.
\<close>

definition get_neighbors :: "state \<Rightarrow> grid \<Rightarrow> error + (action \<times> state) list" where
  "get_neighbors st grid =
     (case position st of
        None \<Rightarrow> Inl TypeError
      | Some (r, c) \<Rightarrow>
          (case move_neighbors st grid r c MOVES [] of
             Inl e \<Rightarrow> Inl e
           | Inr neighbors \<Rightarrow>
               if (r, c) \<in> dirty st
               then Inr (neighbors @ [(''V'', State (position st) (dirty st - {(r, c)}))])
               else Inr neighbors))"

text \<open>A candidate cell is legal when it passes both tests of the loop body.\<close>

definition legal :: "grid \<Rightarrow> int \<Rightarrow> int \<Rightarrow> bool" where
  "legal grid nr nc \<longleftrightarrow>
     0 \<le> nr \<and> nr < int (length grid) \<and> 0 \<le> nc \<and> nc < int (length (grid ! 0)) \<and>
     grid ! nat nr ! nat nc \<noteq> CHR ''#''"

subsection \<open>Printing\<close>

text \<open>Decimal rendering of a counter, as the f-strings of the source do.\<close>

definition digit :: "nat \<Rightarrow> char" where
  "digit d = ''0123456789'' ! d"

fun str :: "nat \<Rightarrow> string" where
  "str n = (if n < 10 then [digit n] else str (n div 10) @ [digit (n mod 10)])"

declare str.simps [simp del]

text \<open>
  The lines printed on reaching a goal: one action per line, then the two counters.
\<close>

definition report :: "action list \<Rightarrow> nat \<Rightarrow> nat \<Rightarrow> string list" where
  "report path nodes_generated nodes_expanded =
     path @ [str nodes_generated @ '' nodes generated'', str nodes_expanded @ '' nodes expanded'']"

text \<open>
  A search ends in one of three ways: it raises (\<open>Inl\<close>), it leaves its loop with an
  empty frontier and prints nothing (\<open>Inr None\<close>), or it pops a goal and prints the
  path and the counters (\<open>Inr (Some (path, generated, expanded))\<close>). A loop that does not
  end is the value \<open>None\<close> of the enclosing option.
\<close>

type_synonym found = "action list \<times> nat \<times> nat"

definition printed :: "found option \<Rightarrow> string list" where
  "printed res = (case res of None \<Rightarrow> [] | Some (path, g, e) \<Rightarrow> report path g e)"

subsection \<open>Depth-first search\<close>

text \<open>
  The stack is a Python list used at its end (\<^verbatim>\<open>append\<close>, \<^verbatim>\<open>pop\<close>); the model keeps the
  top at the head. \<open>dfs_push\<close> is the inner loop over the reversed neighbours.
\<close>

fun dfs_push ::
  "(action \<times> state) list \<Rightarrow> state set \<Rightarrow> action list \<Rightarrow> (state \<times> action list) list \<Rightarrow> nat
    \<Rightarrow> (state \<times> action list) list \<times> nat" where
  "dfs_push [] visited path stack nodes_generated = (stack, nodes_generated)"
| "dfs_push ((a, neighbor) # rest) visited path stack nodes_generated =
     (if neighbor \<notin> visited
      then dfs_push rest visited path ((neighbor, path @ [a]) # stack) (nodes_generated + 1)
      else dfs_push rest visited path stack nodes_generated)"

partial_function (option) dfs_loop ::
  "grid \<Rightarrow> (state \<times> action list) list \<Rightarrow> state set \<Rightarrow> nat \<Rightarrow> nat \<Rightarrow> (error + found option) option"
  where
  "dfs_loop grid stack visited nodes_generated nodes_expanded =
     (case stack of
        [] \<Rightarrow> Some (Inr None)
      | (current_state, path) # stack' \<Rightarrow>
          if current_state \<in> visited
          then dfs_loop grid stack' visited nodes_generated nodes_expanded
          else if dirty current_state = {}
          then Some (Inr (Some (path, nodes_generated, nodes_expanded + 1)))
          else (case get_neighbors current_state grid of
                  Inl e \<Rightarrow> Some (Inl e)
                | Inr neighbors \<Rightarrow>
                    (case dfs_push (rev neighbors) (insert current_state visited) path stack'
                            nodes_generated of
                       (stack'', nodes_generated') \<Rightarrow>
                         dfs_loop grid stack'' (insert current_state visited) nodes_generated'
                           (nodes_expanded + 1))))"

definition dfs_search :: "state \<Rightarrow> grid \<Rightarrow> (error + found option) option" where
  "dfs_search start_state grid = dfs_loop grid [(start_state, [])] {} 0 0"

text \<open>What \<^verbatim>\<open>dfs\<close> prints, or the exception it raises.\<close>

definition dfs :: "state \<Rightarrow> grid \<Rightarrow> (error + string list) option" where
  "dfs start_state grid = map_option (map_sum id printed) (dfs_search start_state grid)"

subsection \<open>Uniform-cost search\<close>

text \<open>
  A heap entry is the tuple \<^verbatim>\<open>(cost, id(state), state)\<close>. \<^verbatim>\<open>id\<close> is the identity of the
  State object; the model takes it from a parameter \<open>ident\<close>, where \<open>ident n\<close> is the
  identity of the object of the \<open>n\<close>-th push (\<open>0\<close> is the start state). The identities of
  objects alive together are distinct, so the tuple comparison of \<^verbatim>\<open>heapq\<close> is decided by
  cost, then identity, and never reaches the states.

  \<^verbatim>\<open>heapq\<close> is modelled by what it computes: \<^verbatim>\<open>heappop\<close> removes the least entry and
  raises IndexError on an empty heap; the remaining entries are kept in push order. Two
  entries with one key do not arise, since the pushed objects stay alive as keys of
  \<^verbatim>\<open>cost_so_far\<close>; the model would take the earlier one.
\<close>

type_synonym entry = "nat \<times> int \<times> state"

fun entry_le :: "entry \<Rightarrow> entry \<Rightarrow> bool" where
  "entry_le (c1, i1, s1) (c2, i2, s2) \<longleftrightarrow> c1 < c2 \<or> (c1 = c2 \<and> i1 \<le> i2)"

fun heap_least :: "entry \<Rightarrow> entry list \<Rightarrow> entry \<times> entry list" where
  "heap_least e [] = (e, [])"
| "heap_least e (x # xs) =
     (case heap_least x xs of (m, rest) \<Rightarrow> if entry_le e m then (e, x # xs) else (m, e # rest))"

definition heappop :: "entry list \<Rightarrow> error + entry \<times> entry list" where
  "heappop heap = (case heap of [] \<Rightarrow> Inl IndexError | e # es \<Rightarrow> Inr (heap_least e es))"

definition heappush :: "entry list \<Rightarrow> entry \<Rightarrow> entry list" where
  "heappush heap e = heap @ [e]"

type_synonym came_from = "state \<rightharpoonup> action option \<times> state option"

type_synonym cost_so_far = "state \<rightharpoonup> nat"

text \<open>
  \<^verbatim>\<open>reconstruct_path\<close>: the walk along \<^verbatim>\<open>came_from\<close> until the entry whose action is
  \<^verbatim>\<open>None\<close>; a missing key raises KeyError.
\<close>

partial_function (option) reconstruct_loop ::
  "came_from \<Rightarrow> state option \<Rightarrow> action list \<Rightarrow> (error + action list) option" where
  "reconstruct_loop came_from end_state path =
     (case end_state of
        None \<Rightarrow> Some (Inl KeyError)
      | Some s \<Rightarrow>
          (case came_from s of
             None \<Rightarrow> Some (Inl KeyError)
           | Some (None, prev) \<Rightarrow> Some (Inr (rev path))
           | Some (Some a, prev) \<Rightarrow> reconstruct_loop came_from prev (path @ [a])))"

definition reconstruct_path :: "came_from \<Rightarrow> state \<Rightarrow> (error + action list) option" where
  "reconstruct_path came_from end_state = reconstruct_loop came_from (Some end_state) []"

text \<open>The inner loop of \<^verbatim>\<open>ucs\<close> over the neighbours of the popped state.\<close>

fun ucs_relax ::
  "(nat \<Rightarrow> int) \<Rightarrow> nat \<Rightarrow> state \<Rightarrow> (action \<times> state) list
    \<Rightarrow> entry list \<times> came_from \<times> cost_so_far \<times> nat
    \<Rightarrow> entry list \<times> came_from \<times> cost_so_far \<times> nat" where
  "ucs_relax ident cost current_state [] vars = vars"
| "ucs_relax ident cost current_state ((a, neighbor) # rest) (heap, came_from, cost_so_far, nodes_generated) =
     (let new_cost = cost + 1 in
      if (case cost_so_far neighbor of None \<Rightarrow> True | Some old \<Rightarrow> new_cost < old)
      then ucs_relax ident cost current_state rest
             (heappush heap (new_cost, ident (nodes_generated + 1), neighbor),
              came_from(neighbor \<mapsto> (Some a, Some current_state)),
              cost_so_far(neighbor \<mapsto> new_cost),
              nodes_generated + 1)
      else ucs_relax ident cost current_state rest (heap, came_from, cost_so_far, nodes_generated))"

partial_function (option) ucs_loop ::
  "(nat \<Rightarrow> int) \<Rightarrow> grid \<Rightarrow> entry list \<Rightarrow> came_from \<Rightarrow> cost_so_far \<Rightarrow> nat \<Rightarrow> nat
    \<Rightarrow> (error + found option) option" where
  "ucs_loop ident grid heap came_from cost_so_far nodes_generated nodes_expanded =
     (if heap = [] then Some (Inr None)
      else
        (case heappop heap of
           Inl e \<Rightarrow> Some (Inl e)
         | Inr ((cost, i, current_state), heap') \<Rightarrow>
             if dirty current_state = {}
             then (case reconstruct_path came_from current_state of
                     None \<Rightarrow> None
                   | Some (Inl e) \<Rightarrow> Some (Inl e)
                   | Some (Inr path) \<Rightarrow>
                       Some (Inr (Some (path, nodes_generated, nodes_expanded + 1))))
             else (case get_neighbors current_state grid of
                     Inl e \<Rightarrow> Some (Inl e)
                   | Inr neighbors \<Rightarrow>
                       (case ucs_relax ident cost current_state neighbors
                               (heap', came_from, cost_so_far, nodes_generated) of
                          (heap'', came_from', cost_so_far', nodes_generated') \<Rightarrow>
                            ucs_loop ident grid heap'' came_from' cost_so_far' nodes_generated'
                              (nodes_expanded + 1)))))"

definition ucs_search :: "(nat \<Rightarrow> int) \<Rightarrow> state \<Rightarrow> grid \<Rightarrow> (error + found option) option" where
  "ucs_search ident start_state grid =
     ucs_loop ident grid [(0, ident 0, start_state)]
       [start_state \<mapsto> (None, None)] [start_state \<mapsto> 0] 0 0"

definition ucs :: "(nat \<Rightarrow> int) \<Rightarrow> state \<Rightarrow> grid \<Rightarrow> (error + string list) option" where
  "ucs ident start_state grid = map_option (map_sum id printed) (ucs_search ident start_state grid)"

subsection \<open>Reading the world file\<close>

text \<open>
  \<^verbatim>\<open>parse_world\<close> reads from a \<^verbatim>\<open>codecs\<close> stream opened with \<^verbatim>\<open>utf-8-sig\<close>. Opening and
  decoding belong to the codec: the model starts from the decoded text (after the codec
  has dropped a leading byte-order mark), as a list of characters below U+0100.

  \<^verbatim>\<open>readline\<close> of a codec stream cuts at the line boundaries of \<^verbatim>\<open>str.splitlines\<close>, keeps
  the line end, and returns the empty string at the end of the text.
\<close>

definition linebreak :: "char \<Rightarrow> bool" where
  "linebreak ch \<longleftrightarrow> ch \<in> {CHR 0x0A, CHR 0x0B, CHR 0x0C, CHR 0x0D, CHR 0x1C, CHR 0x1D, CHR 0x1E, CHR 0x85}"

fun readline :: "string \<Rightarrow> string \<times> string" where
  "readline [] = ([], [])"
| "readline (ch # rest) =
     (if ch = CHR 0x0D then
        (case rest of
           [] \<Rightarrow> ([ch], [])
         | ch' # rest' \<Rightarrow> if ch' = CHR 0x0A then ([ch, ch'], rest') else ([ch], rest))
      else if linebreak ch then ([ch], rest)
      else (case readline rest of (line, rest') \<Rightarrow> (ch # line, rest')))"

text \<open>\<^verbatim>\<open>str.strip()\<close> removes the characters of \<^verbatim>\<open>str.isspace\<close> at both ends.\<close>

definition isspace :: "char \<Rightarrow> bool" where
  "isspace ch \<longleftrightarrow>
     ch \<in> {CHR 0x09, CHR 0x0A, CHR 0x0B, CHR 0x0C, CHR 0x0D, CHR 0x1C, CHR 0x1D, CHR 0x1E,
            CHR 0x1F, CHR 0x20, CHR 0x85, CHR 0xA0}"

definition strip :: "string \<Rightarrow> string" where
  "strip s = rev (dropWhile isspace (rev (dropWhile isspace s)))"

text \<open>
  \<^verbatim>\<open>int(s)\<close> in base 10: white space at both ends is skipped (here the separators
  U+001C to U+001F do not count), then an optional sign, then decimal digits, where single
  underscores may stand between digits. Anything else raises ValueError. (The bound that
  recent interpreters put on the number of digits is left out.)
\<close>

definition int_space :: "char \<Rightarrow> bool" where
  "int_space ch \<longleftrightarrow>
     ch \<in> {CHR 0x09, CHR 0x0A, CHR 0x0B, CHR 0x0C, CHR 0x0D, CHR 0x20, CHR 0x85, CHR 0xA0}"

definition isdigit :: "char \<Rightarrow> bool" where
  "isdigit ch \<longleftrightarrow> 48 \<le> (of_char ch :: nat) \<and> (of_char ch :: nat) \<le> 57"

fun int_digits :: "string \<Rightarrow> nat \<Rightarrow> bool \<Rightarrow> nat option" where
  "int_digits [] v after_digit = (if after_digit then Some v else None)"
| "int_digits (ch # rest) v after_digit =
     (if isdigit ch then int_digits rest (10 * v + (of_char ch - 48)) True
      else if ch = CHR ''_'' \<and> after_digit then int_digits rest v False
      else None)"

definition py_int :: "string \<Rightarrow> error + int" where
  "py_int s =
     (let t = rev (dropWhile int_space (rev (dropWhile int_space s))) in
      case t of
        [] \<Rightarrow> Inl ValueError
      | ch # rest \<Rightarrow>
          if ch = CHR ''-'' then
            (case int_digits rest 0 False of None \<Rightarrow> Inl ValueError | Some v \<Rightarrow> Inr (- int v))
          else if ch = CHR ''+'' then
            (case int_digits rest 0 False of None \<Rightarrow> Inl ValueError | Some v \<Rightarrow> Inr (int v))
          else
            (case int_digits t 0 False of None \<Rightarrow> Inl ValueError | Some v \<Rightarrow> Inr (int v)))"

text \<open>The loop over \<^verbatim>\<open>enumerate(line)\<close>, for row \<open>r\<close> from column \<open>c\<close> on.\<close>

fun parse_line ::
  "int \<Rightarrow> int \<Rightarrow> string \<Rightarrow> char list \<times> pos option \<times> pos set \<Rightarrow> char list \<times> pos option \<times> pos set"
  where
  "parse_line r c [] vars = vars"
| "parse_line r c (ch # rest) (row, start, dirt) =
     (if ch = CHR ''@'' then parse_line r (c + 1) rest (row @ [CHR ''_''], Some (r, c), dirt)
      else if ch = CHR ''*'' then parse_line r (c + 1) rest (row @ [CHR ''*''], start, insert (r, c) dirt)
      else parse_line r (c + 1) rest (row @ [ch], start, dirt))"

text \<open>The loop over \<^verbatim>\<open>range(rows)\<close>; \<open>f\<close> is the text not yet read.\<close>

fun parse_rows ::
  "int list \<Rightarrow> string \<Rightarrow> grid \<times> pos option \<times> pos set \<Rightarrow> grid \<times> pos option \<times> pos set" where
  "parse_rows [] f vars = vars"
| "parse_rows (r # rs) f (grid, start, dirt) =
     (case readline f of
        (line, f') \<Rightarrow>
          (case parse_line r 0 (strip line) ([], start, dirt) of
             (row, start', dirt') \<Rightarrow> parse_rows rs f' (grid @ [row], start', dirt')))"

definition parse_world :: "string \<Rightarrow> error + grid \<times> pos option \<times> pos set" where
  "parse_world text =
     (case readline text of
        (line1, f1) \<Rightarrow>
          (case py_int line1 of
             Inl e \<Rightarrow> Inl e
           | Inr cols \<Rightarrow>
               (case readline f1 of
                  (line2, f2) \<Rightarrow>
                    (case py_int line2 of
                       Inl e \<Rightarrow> Inl e
                     | Inr rows \<Rightarrow> Inr (parse_rows [0..rows - 1] f2 ([], None, {}))))))"

subsection \<open>The program\<close>

text \<open>
  \<^verbatim>\<open>main\<close>, from \<^verbatim>\<open>sys.argv\<close> to what is written on standard output and the exit status.
  \<open>read_file\<close> stands for opening and decoding the file at a path: it gives the text
  that the codec hands to the parser, or the exception that it raises on the way. An
  exception that reaches the top level ends the process with status 1; nothing has been
  printed by then, since the searches print only on reaching a goal.
\<close>

definition usage :: string where
  "usage = ''Usage: python3 planner.py [uniform-cost|depth-first] [world-file]''"

definition finish :: "(error + string list) option \<Rightarrow> (string list \<times> nat) option" where
  "finish r = (case r of None \<Rightarrow> None | Some (Inl e) \<Rightarrow> Some ([], 1) | Some (Inr out) \<Rightarrow> Some (out, 0))"

definition main ::
  "(nat \<Rightarrow> int) \<Rightarrow> (string \<Rightarrow> error + string) \<Rightarrow> string list \<Rightarrow> (string list \<times> nat) option" where
  "main ident read_file argv =
     (if length argv \<noteq> 3 then Some ([usage], 1)
      else
        let algorithm = argv ! 1; file_path = argv ! 2 in
        case read_file file_path of
          Inl e \<Rightarrow> Some ([], 1)
        | Inr text \<Rightarrow>
            (case parse_world text of
               Inl e \<Rightarrow> Some ([], 1)
             | Inr (grid, start_pos, dirt) \<Rightarrow>
                 let start_state = State start_pos dirt in
                 if algorithm = ''depth-first'' then finish (dfs start_state grid)
                 else if algorithm = ''uniform-cost'' then finish (ucs ident start_state grid)
                 else Some ([''Unknown algorithm: '' @ algorithm], 1)))"

subsection \<open>Notions used in the statements\<close>

text \<open>
  The lines of a world file as the parser meets them: the two header lines, and the first
  \<open>n\<close> lines after them with the white space at their ends removed.
\<close>

definition line1 :: "string \<Rightarrow> string" where
  "line1 text = fst (readline text)"

definition line2 :: "string \<Rightarrow> string" where
  "line2 text = fst (readline (snd (readline text)))"

fun read_lines :: "nat \<Rightarrow> string \<Rightarrow> string list" where
  "read_lines 0 f = []"
| "read_lines (Suc n) f = (case readline f of (line, f') \<Rightarrow> strip line # read_lines n f')"

definition world_lines :: "string \<Rightarrow> nat \<Rightarrow> string list" where
  "world_lines text n = read_lines n (snd (readline (snd (readline text))))"

text \<open>
  The positions of the agent marker in reading order: row by row from row \<open>r\<close>, and in a
  row from column \<open>c\<close>.
\<close>

fun line_markers :: "int \<Rightarrow> int \<Rightarrow> string \<Rightarrow> pos list" where
  "line_markers r c [] = []"
| "line_markers r c (ch # rest) =
     (if ch = CHR ''@'' then (r, c) # line_markers r (c + 1) rest else line_markers r (c + 1) rest)"

fun markers_from :: "int \<Rightarrow> string list \<Rightarrow> pos list" where
  "markers_from r [] = []"
| "markers_from r (l # ls) = line_markers r 0 l @ markers_from (r + 1) ls"

definition agent_markers :: "string list \<Rightarrow> pos list" where
  "agent_markers ls = markers_from 0 ls"

text \<open>The last element of a list, or a default when the list is empty.\<close>

definition last_or :: "'a option \<Rightarrow> 'a list \<Rightarrow> 'a option" where
  "last_or d xs = (if xs = [] then d else Some (last xs))"

subsection \<open>Plans\<close>

text \<open>
  Running an action sequence from a state: each action must label one of the successors
  that \<open>get_neighbors\<close> gives for the current state. A plan clears all dirt when it can be
  run and ends in a state with an empty dirty set.
\<close>

fun exec :: "grid \<Rightarrow> state \<Rightarrow> action list \<Rightarrow> state option" where
  "exec grid st [] = Some st"
| "exec grid st (a # plan) =
     (case get_neighbors st grid of
        Inl e \<Rightarrow> None
      | Inr neighbors \<Rightarrow>
          (case map_of neighbors a of None \<Rightarrow> None | Some st' \<Rightarrow> exec grid st' plan))"

definition clears :: "grid \<Rightarrow> state \<Rightarrow> action list \<Rightarrow> bool" where
  "clears grid st plan = (case exec grid st plan of None \<Rightarrow> False | Some st' \<Rightarrow> dirty st' = {})"

text \<open>A grid is rectangular when every row is as long as row 0.\<close>

definition rectangular :: "grid \<Rightarrow> bool" where
  "rectangular grid = list_all (\<lambda>row. length row = length (grid ! 0)) grid"

subsection \<open>The state space of a search\<close>

text \<open>
  The cells that pass the bounds test, and the states a search can meet from a start
  state: the position is the start position or a cell, and the dirty set is the start
  dirty set without some of these places.
\<close>

definition cells :: "grid \<Rightarrow> pos set" where
  "cells grid = {(r, c). 0 \<le> r \<and> r < int (length grid) \<and> 0 \<le> c \<and> c < int (length (grid ! 0))}"

definition universe :: "grid \<Rightarrow> state \<Rightarrow> state set" where
  "universe grid st =
     (\<lambda>(p, X). State p (dirty st - X)) `
       (insert (position st) (Some ` cells grid) \<times> Pow (cells grid \<union> set_option (position st)))"

definition closed :: "grid \<Rightarrow> state set \<Rightarrow> bool" where
  "closed grid U \<longleftrightarrow>
     (\<forall>s neighbors a n. s \<in> U \<longrightarrow> get_neighbors s grid = Inr neighbors \<longrightarrow> (a, n) \<in> set neighbors \<longrightarrow> n \<in> U)"

subsection \<open>The invariant of uniform-cost search\<close>

text \<open>
  \<open>chain came_from s plan\<close>: walking \<open>came_from\<close> back from \<open>s\<close> meets the actions of \<open>plan\<close>,
  last action first, and ends at the entry without an action.
\<close>

inductive chain :: "came_from \<Rightarrow> state \<Rightarrow> action list \<Rightarrow> bool" for came_from where
  chain_start: "came_from s = Some (None, prev) \<Longrightarrow> chain came_from s []"
| chain_step: "came_from s = Some (Some a, Some p) \<Longrightarrow> chain came_from p plan
    \<Longrightarrow> chain came_from s (plan @ [a])"

definition heap_states :: "entry list \<Rightarrow> state set" where
  "heap_states heap = (\<lambda>(c, i, s). s) ` set heap"

text \<open>
  What holds of the variables of \<^verbatim>\<open>ucs\<close> at the head of its loop. The states on the heap
  belong to \<open>U\<close>; the start state has cost 0; a heap entry carries the recorded cost of its
  state; a recorded cost is the length of a plan that leads from the start state to the
  state and that \<open>came_from\<close> spells; a recorded state that is not on the heap has been
  expanded: it is dirty, and its successors are recorded at most one step further; no
  recorded cost exceeds a cost on the heap by more than one; \<open>came_from\<close> has no key
  without a recorded cost.
\<close>

definition ucs_inv :: "grid \<Rightarrow> state \<Rightarrow> state set \<Rightarrow> entry list \<Rightarrow> came_from \<Rightarrow> cost_so_far \<Rightarrow> bool"
  where
  "ucs_inv grid st0 U heap cf cost \<longleftrightarrow>
     heap_states heap \<subseteq> U \<and>
     cost st0 = Some 0 \<and>
     (\<forall>c i s. (c, i, s) \<in> set heap \<longrightarrow> cost s = Some c) \<and>
     (\<forall>s k. cost s = Some k \<longrightarrow>
        (\<exists>plan. length plan = k \<and> exec grid st0 plan = Some s \<and> chain cf s plan)) \<and>
     (\<forall>s k. cost s = Some k \<longrightarrow> s \<notin> heap_states heap \<longrightarrow>
        dirty s \<noteq> {} \<and>
        (\<exists>nb. get_neighbors s grid = Inr nb \<and>
           (\<forall>a n. (a, n) \<in> set nb \<longrightarrow> (\<exists>k'. cost n = Some k' \<and> k' \<le> k + 1)))) \<and>
     (\<forall>s k c i s'. cost s = Some k \<longrightarrow> (c, i, s') \<in> set heap \<longrightarrow> k \<le> c + 1) \<and>
     (\<forall>s. cf s \<noteq> None \<longrightarrow> cost s \<noteq> None)"

text \<open>
  What a finished uniform-cost search has established: an exception comes from the successor
  generator at a state of \<open>U\<close>; an empty frontier means that no plan clears all dirt; a path
  found clears all dirt and no plan that does is shorter.
\<close>

definition ucs_post :: "grid \<Rightarrow> state \<Rightarrow> state set \<Rightarrow> error + found option \<Rightarrow> bool" where
  "ucs_post grid st0 U r =
     (case r of
        Inl e \<Rightarrow> \<exists>s. s \<in> U \<and> get_neighbors s grid = Inl e
      | Inr None \<Rightarrow> \<forall>plan. \<not> clears grid st0 plan
      | Inr (Some (path, g, e)) \<Rightarrow>
          clears grid st0 path \<and> (\<forall>plan. clears grid st0 plan \<longrightarrow> length path \<le> length plan))"

subsection \<open>Identities that order the pushed states alike\<close>

text \<open>
  Two assignments of identities have the same order when they compare any two pushes the
  same way. Two heap entries correspond when they have the same cost and state and carry
  the identities that the two assignments give to one push.
\<close>

definition same_order :: "(nat \<Rightarrow> int) \<Rightarrow> (nat \<Rightarrow> int) \<Rightarrow> bool" where
  "same_order ident ident' \<longleftrightarrow> (\<forall>m n. ident m < ident n \<longleftrightarrow> ident' m < ident' n)"

fun entry_rel :: "(nat \<Rightarrow> int) \<Rightarrow> (nat \<Rightarrow> int) \<Rightarrow> entry \<Rightarrow> entry \<Rightarrow> bool" where
  "entry_rel ident ident' (c, i, s) (c', i', s') \<longleftrightarrow>
     c = c' \<and> s = s' \<and> (\<exists>n. i = ident n \<and> i' = ident' n)"

section \<open>Properties\<close>

subsection \<open>The successor generator\<close>

lemma move_neighbors_acc:
  "move_neighbors st grid r c ms nb = Inr out \<Longrightarrow>
   out = nb @ concat (map (\<lambda>(a, dr, dc). if legal grid (r + dr) (c + dc)
        then [(a, State (Some (r + dr, c + dc)) (dirty st))] else []) ms)"
proof (induction ms arbitrary: nb)
  case Nil
  then show ?case by simp
next
  case (Cons m ms)
  obtain a dr dc where m: "m = (a, dr, dc)" by (cases m)
  show ?case
  proof (cases "legal grid (r + dr) (c + dc)")
    case True
    with Cons.prems m
    have "move_neighbors st grid r c ms (nb @ [(a, State (Some (r + dr, c + dc)) (dirty st))]) = Inr out"
      by (simp add: Let_def legal_def split: if_splits)
    from Cons.IH[OF this] True m show ?thesis by simp
  next
    case False
    with Cons.prems m have "move_neighbors st grid r c ms nb = Inr out"
      by (simp add: Let_def legal_def split: if_splits)
    from Cons.IH[OF this] False m show ?thesis by simp
  qed
qed

lemma move_neighbors_row_length:
  "move_neighbors st grid r c ms nb = Inr out \<Longrightarrow> (a, dr, dc) \<in> set ms \<Longrightarrow>
   legal grid (r + dr) (c + dc) \<Longrightarrow> c + dc < int (length (grid ! nat (r + dr)))"
proof (induction ms arbitrary: nb)
  case Nil
  then show ?case by simp
next
  case (Cons m ms)
  obtain a' dr' dc' where m: "m = (a', dr', dc')" by (cases m)
  show ?case
  proof (cases "(a, dr, dc) = m")
    case True
    with Cons.prems m show ?thesis
      by (simp add: Let_def legal_def split: if_splits)
  next
    case False
    with Cons.prems have mem: "(a, dr, dc) \<in> set ms" by simp
    from Cons.prems(1) m obtain nb' where "move_neighbors st grid r c ms nb' = Inr out"
      by (auto simp: Let_def split: if_splits)
    from Cons.IH[OF this mem Cons.prems(3)] show ?thesis .
  qed
qed

lemma get_neighbors_shape:
  assumes "get_neighbors st grid = Inr nb"
  shows "\<exists>r c. position st = Some (r, c) \<and>
    nb = concat (map (\<lambda>(a, dr, dc). if legal grid (r + dr) (c + dc)
        then [(a, State (Some (r + dr, c + dc)) (dirty st))] else []) MOVES)
      @ (if (r, c) \<in> dirty st then [(''V'', State (Some (r, c)) (dirty st - {(r, c)}))] else [])
    \<and> (\<forall>(a, dr, dc) \<in> set MOVES. legal grid (r + dr) (c + dc) \<longrightarrow>
          c + dc < int (length (grid ! nat (r + dr))))"
proof (cases "position st")
  case None
  with assms show ?thesis by (simp add: get_neighbors_def)
next
  case (Some p)
  obtain r c where p: "p = (r, c)" by (cases p)
  from assms Some p obtain mv where mv: "move_neighbors st grid r c MOVES [] = Inr mv"
    by (auto simp: get_neighbors_def split: sum.splits)
  from assms Some p mv have "nb = mv @ (if (r, c) \<in> dirty st then [(''V'', State (Some (r, c)) (dirty st - {(r, c)}))] else [])"
    by (auto simp: get_neighbors_def split: if_splits)
  with move_neighbors_acc[OF mv] move_neighbors_row_length[OF mv] Some p show ?thesis by auto
qed

text \<open>
  Claim C5. Whenever the successor generator returns, every successor that is not the
  vacuum successor stands on a cell inside the grid (row index within the grid, column
  index within row 0 and within its own row) that is not a wall.
\<close>

theorem get_neighbors_moves_legal:
  assumes "get_neighbors st grid = Inr neighbors"
    and "(a, st') \<in> set neighbors" and "a \<noteq> ''V''"
  shows "\<exists>nr nc. position st' = Some (nr, nc) \<and>
           0 \<le> nr \<and> nr < int (length grid) \<and>
           0 \<le> nc \<and> nc < int (length (grid ! 0)) \<and> nc < int (length (grid ! nat nr)) \<and>
           grid ! nat nr ! nat nc \<noteq> CHR ''#''"
proof -
  from get_neighbors_shape[OF assms(1)] obtain r c where
    nb: "neighbors = concat (map (\<lambda>(a, dr, dc). if legal grid (r + dr) (c + dc)
        then [(a, State (Some (r + dr, c + dc)) (dirty st))] else []) MOVES)
      @ (if (r, c) \<in> dirty st then [(''V'', State (Some (r, c)) (dirty st - {(r, c)}))] else [])"
    and len: "\<forall>(a, dr, dc) \<in> set MOVES. legal grid (r + dr) (c + dc) \<longrightarrow>
          c + dc < int (length (grid ! nat (r + dr)))"
    by blast
  from assms(2,3) nb obtain dr dc where m: "(a, dr, dc) \<in> set MOVES"
    and l: "legal grid (r + dr) (c + dc)" and st': "st' = State (Some (r + dr, c + dc)) (dirty st)"
    by (auto split: if_splits)
  from len m l have "c + dc < int (length (grid ! nat (r + dr)))" by blast
  with l st' show ?thesis by (simp add: legal_def State_def)
qed

theorem get_neighbors_moves_legal_witness:
  "get_neighbors (State (Some (0, 1)) {(0, 1)}) [''__#'', ''_#_''] =
     Inr [(''W'', State (Some (0, 0)) {(0, 1)}), (''V'', State (Some (0, 1)) {})] \<and>
   (''W'', State (Some (0, 0)) {(0, 1)}) \<in> set [(''W'', State (Some (0, 0)) {(0, 1)}), (''V'', State (Some (0, 1)) {})] \<and>
   ''W'' \<noteq> ''V'' \<and>
   (\<exists>nr nc. position (State (Some (0, 0)) {(0, 1)}) = Some (nr, nc) \<and>
           0 \<le> nr \<and> nr < int (length [''__#'', ''_#_'']) \<and>
           0 \<le> nc \<and> nc < int (length ([''__#'', ''_#_''] ! 0)) \<and> nc < int (length ([''__#'', ''_#_''] ! nat nr)) \<and>
           [''__#'', ''_#_''] ! nat nr ! nat nc \<noteq> CHR ''#'')"
proof -
  have h1: "get_neighbors (State (Some (0, 1)) {(0, 1)}) [''__#'', ''_#_''] =
     Inr [(''W'', State (Some (0, 0)) {(0, 1)}), (''V'', State (Some (0, 1)) {})]"
    by (simp add: get_neighbors_def MOVES_def State_def)
  have h2: "(''W'', State (Some (0, 0)) {(0, 1)}) \<in> set [(''W'', State (Some (0, 0)) {(0, 1)}), (''V'', State (Some (0, 1)) {})]"
    by simp
  have h3: "''W'' \<noteq> ''V''" by simp
  from get_neighbors_moves_legal[OF h1 h2 h3] h1 h2 h3 show ?thesis by blast
qed

text \<open>
  Claim C6. Whenever the successor generator returns, its output is this list, in this
  order: the successor for N (one row up), for S (one row down), for E (one column right)
  and for W (one column left), each present exactly when its target cell is inside the
  bounds and not a wall, at the target position with the dirty set unchanged; then the
  successor for V, present exactly when the position is in the dirty set, at the same
  position with that cell removed from the dirty set.
\<close>

theorem get_neighbors_emission:
  assumes "get_neighbors st grid = Inr neighbors"
  shows "(\<exists>r c. position st = Some (r, c) \<and>
      (let ok = (\<lambda>nr nc. 0 \<le> nr \<and> nr < int (length grid) \<and> 0 \<le> nc \<and>
                   nc < int (length (grid ! 0)) \<and> grid ! nat nr ! nat nc \<noteq> CHR ''#'')
       in neighbors =
         (if ok (r - 1) c then [(''N'', State (Some (r - 1, c)) (dirty st))] else []) @
         (if ok (r + 1) c then [(''S'', State (Some (r + 1, c)) (dirty st))] else []) @
         (if ok r (c + 1) then [(''E'', State (Some (r, c + 1)) (dirty st))] else []) @
         (if ok r (c - 1) then [(''W'', State (Some (r, c - 1)) (dirty st))] else []) @
         (if (r, c) \<in> dirty st
          then [(''V'', State (Some (r, c)) (dirty st - {(r, c)}))] else []))) \<and>
    subseq (map fst neighbors) [''N'', ''S'', ''E'', ''W'', ''V''] \<and>
    (\<forall>(a, st') \<in> set neighbors. a \<noteq> ''V'' \<longrightarrow> dirty st' = dirty st) \<and>
    (\<forall>st'. (''V'', st') \<in> set neighbors \<longleftrightarrow>
       (\<exists>p. position st = Some p \<and> p \<in> dirty st \<and> st' = State (Some p) (dirty st - {p})))"
proof -
  from get_neighbors_shape[OF assms] obtain r c where
    pos: "position st = Some (r, c)" and
    nb: "neighbors = concat (map (\<lambda>(a, dr, dc). if legal grid (r + dr) (c + dc)
        then [(a, State (Some (r + dr, c + dc)) (dirty st))] else []) MOVES)
      @ (if (r, c) \<in> dirty st then [(''V'', State (Some (r, c)) (dirty st - {(r, c)}))] else [])"
    by blast
  have 0: "let ok = (\<lambda>nr nc. 0 \<le> nr \<and> nr < int (length grid) \<and> 0 \<le> nc \<and>
                   nc < int (length (grid ! 0)) \<and> grid ! nat nr ! nat nc \<noteq> CHR ''#'')
       in neighbors =
         (if ok (r - 1) c then [(''N'', State (Some (r - 1, c)) (dirty st))] else []) @
         (if ok (r + 1) c then [(''S'', State (Some (r + 1, c)) (dirty st))] else []) @
         (if ok r (c + 1) then [(''E'', State (Some (r, c + 1)) (dirty st))] else []) @
         (if ok r (c - 1) then [(''W'', State (Some (r, c - 1)) (dirty st))] else []) @
         (if (r, c) \<in> dirty st
          then [(''V'', State (Some (r, c)) (dirty st - {(r, c)}))] else [])"
    unfolding nb MOVES_def Let_def legal_def by simp
  have 1: "subseq (map fst neighbors) [''N'', ''S'', ''E'', ''W'', ''V'']"
    unfolding nb MOVES_def by simp
  have 2: "\<forall>(a, st') \<in> set neighbors. a \<noteq> ''V'' \<longrightarrow> dirty st' = dirty st"
    unfolding nb MOVES_def by (auto simp: State_def)
  have 4: "\<forall>st'. (''V'', st') \<in> set neighbors \<longleftrightarrow>
       (\<exists>p. position st = Some p \<and> p \<in> dirty st \<and> st' = State (Some p) (dirty st - {p}))"
    unfolding nb MOVES_def using pos by auto
  from pos 0 1 2 4 show ?thesis by blast
qed

theorem get_neighbors_emission_witness:
  "get_neighbors (State (Some (1, 1)) {(1, 1)}) [''___'', ''_*_'', ''___''] =
     Inr [(''N'', State (Some (0, 1)) {(1, 1)}), (''S'', State (Some (2, 1)) {(1, 1)}),
          (''E'', State (Some (1, 2)) {(1, 1)}), (''W'', State (Some (1, 0)) {(1, 1)}),
          (''V'', State (Some (1, 1)) {})] \<and>
   get_neighbors (State (Some (0, 0)) {(0, 1)}) [''__#'', ''_#_''] =
     Inr [(''S'', State (Some (1, 0)) {(0, 1)}), (''E'', State (Some (0, 1)) {(0, 1)})] \<and>
   subseq (map fst [(''N'', State (Some (0, 1)) {(1, 1)}), (''S'', State (Some (2, 1)) {(1, 1)}),
          (''E'', State (Some (1, 2)) {(1, 1)}), (''W'', State (Some (1, 0)) {(1, 1)}),
          (''V'', State (Some (1, 1)) {})]) [''N'', ''S'', ''E'', ''W'', ''V''] \<and>
   (\<exists>r c. position (State (Some (0, 0)) {(0, 1)}) = Some (r, c) \<and>
      (let ok = (\<lambda>nr nc. 0 \<le> nr \<and> nr < int (length [''__#'', ''_#_'']) \<and> 0 \<le> nc \<and>
                   nc < int (length ([''__#'', ''_#_''] ! 0)) \<and>
                   [''__#'', ''_#_''] ! nat nr ! nat nc \<noteq> CHR ''#'')
       in [(''S'', State (Some (1, 0)) {(0, 1)}), (''E'', State (Some (0, 1)) {(0, 1)})] =
         (if ok (r - 1) c then [(''N'', State (Some (r - 1, c)) (dirty (State (Some (0, 0)) {(0, 1)})))] else []) @
         (if ok (r + 1) c then [(''S'', State (Some (r + 1, c)) (dirty (State (Some (0, 0)) {(0, 1)})))] else []) @
         (if ok r (c + 1) then [(''E'', State (Some (r, c + 1)) (dirty (State (Some (0, 0)) {(0, 1)})))] else []) @
         (if ok r (c - 1) then [(''W'', State (Some (r, c - 1)) (dirty (State (Some (0, 0)) {(0, 1)})))] else []) @
         (if (r, c) \<in> dirty (State (Some (0, 0)) {(0, 1)})
          then [(''V'', State (Some (r, c)) (dirty (State (Some (0, 0)) {(0, 1)}) - {(r, c)}))] else [])))"
proof -
  have h: "get_neighbors (State (Some (1, 1)) {(1, 1)}) [''___'', ''_*_'', ''___''] =
     Inr [(''N'', State (Some (0, 1)) {(1, 1)}), (''S'', State (Some (2, 1)) {(1, 1)}),
          (''E'', State (Some (1, 2)) {(1, 1)}), (''W'', State (Some (1, 0)) {(1, 1)}),
          (''V'', State (Some (1, 1)) {})]"
    by (simp add: get_neighbors_def MOVES_def State_def)
  have k: "get_neighbors (State (Some (0, 0)) {(0, 1)}) [''__#'', ''_#_''] =
     Inr [(''S'', State (Some (1, 0)) {(0, 1)}), (''E'', State (Some (0, 1)) {(0, 1)})]"
    by (simp add: get_neighbors_def MOVES_def State_def)
  from get_neighbors_emission[OF h] get_neighbors_emission[OF k] h k show ?thesis by blast
qed

subsection \<open>Worlds without dirt\<close>

lemma str_0: "str 0 = ''0''" by (simp add: str.simps digit_def)
lemma str_1: "str 1 = ''1''" by (simp add: str.simps digit_def)
lemma str_Suc_0: "str (Suc 0) = ''1''" by (simp add: str.simps digit_def)
lemma str_2: "str 2 = ''2''" by (simp add: str.simps digit_def)
lemma str_3: "str 3 = ''3''" by (simp add: str.simps digit_def)

lemma dfs_search_clean:
  "dirty st = {} \<Longrightarrow> dfs_search st grid = Some (Inr (Some ([], 0, 1)))"
  by (simp add: dfs_search_def dfs_loop.simps)

lemma ucs_search_clean:
  "dirty st = {} \<Longrightarrow> ucs_search ident st grid = Some (Inr (Some ([], 0, 1)))"
  by (simp add: ucs_search_def ucs_loop.simps heappop_def reconstruct_path_def reconstruct_loop.simps)

text \<open>
  Claim C7. From a start state with an empty dirty set, depth-first search and
  uniform-cost search both find the empty action sequence, with no node generated and
  exactly one node expanded, and print only the two counter lines.
\<close>

theorem no_dirt_expands_once:
  assumes "dirty st = {}"
  shows "dfs_search st grid = Some (Inr (Some ([], 0, 1))) \<and>
         ucs_search ident st grid = Some (Inr (Some ([], 0, 1))) \<and>
         dfs st grid = Some (Inr [''0 nodes generated'', ''1 nodes expanded'']) \<and>
         ucs ident st grid = Some (Inr [''0 nodes generated'', ''1 nodes expanded''])"
  using assms
  by (simp add: dfs_def ucs_def dfs_search_clean ucs_search_clean printed_def report_def str_0 str_Suc_0)

theorem no_dirt_expands_once_witness:
  "dirty (State (Some (0, 0)) {}) = {} \<and>
   dfs (State (Some (0, 0)) {}) [''__''] = Some (Inr [''0 nodes generated'', ''1 nodes expanded'']) \<and>
   ucs int (State (Some (0, 0)) {}) [''__''] = Some (Inr [''0 nodes generated'', ''1 nodes expanded''])"
proof -
  have h: "dirty (State (Some (0, 0)) {}) = {}" by (simp add: State_def)
  from no_dirt_expands_once[OF h, of "[''__'']" int] h show ?thesis by blast
qed

subsection \<open>The example world\<close>

lemmas parse_eval = parse_world_def py_int_def int_space_def isdigit_def linebreak_def strip_def
      isspace_def upto.simps

lemma main_parsed:
  assumes "read_file path = Inr content" and "parse_world content = Inr (grid, start, dirt)"
  shows "main ident read_file [prog, alg, path] =
    (if alg = ''depth-first'' then finish (dfs (State start dirt) grid)
     else if alg = ''uniform-cost'' then finish (ucs ident (State start dirt) grid)
     else Some ([''Unknown algorithm: '' @ alg], 1))"
  by (simp add: main_def assms Let_def)

lemmas ucs_eval = ucs_search_def ucs_loop.simps heappop_def heappush_def reconstruct_path_def
      reconstruct_loop.simps get_neighbors_def MOVES_def State_def

lemmas dfs_eval = dfs_search_def dfs_loop.simps get_neighbors_def MOVES_def State_def

lemma parse_example:
  "parse_world ''3\<newline>1\<newline>@*#\<newline>'' = Inr ([''_*#''], Some (0, 0), {(0, 1)})"
  by (simp add: parse_eval)

lemma ucs_example:
  "ucs_search ident (State (Some (0, 0)) {(0, 1)}) [''_*#''] = Some (Inr (Some ([''E'', ''V''], 2, 3)))"
  by (simp add: ucs_eval)

text \<open>
  Claim C4. The world file with header 3, 1 and the grid row \<^verbatim>\<open>@*#\<close> parses to the agent at
  (0,0), dirt at (0,1) and a wall at (0,2); on it uniform-cost search prints E, V,
  \<^verbatim>\<open>2 nodes generated\<close>, \<^verbatim>\<open>3 nodes expanded\<close>, whatever the object identities are, and the
  program ends with status 0.
\<close>

theorem example_world_ucs:
  "parse_world ''3\<newline>1\<newline>@*#\<newline>'' = Inr ([''_*#''], Some (0, 0), {(0, 1)}) \<and>
   ucs ident (State (Some (0, 0)) {(0, 1)}) [''_*#''] =
     Some (Inr [''E'', ''V'', ''2 nodes generated'', ''3 nodes expanded'']) \<and>
   main ident (\<lambda>p. Inr ''3\<newline>1\<newline>@*#\<newline>'') [''planner.py'', ''uniform-cost'', ''world.txt''] =
     Some ([''E'', ''V'', ''2 nodes generated'', ''3 nodes expanded''], 0)"
proof -
  have u: "ucs ident (State (Some (0, 0)) {(0, 1)}) [''_*#''] =
     Some (Inr [''E'', ''V'', ''2 nodes generated'', ''3 nodes expanded''])"
    by (simp add: ucs_def ucs_example printed_def report_def str_2 str_3)
  have "main ident (\<lambda>p. Inr ''3\<newline>1\<newline>@*#\<newline>'') [''planner.py'', ''uniform-cost'', ''world.txt''] =
     Some ([''E'', ''V'', ''2 nodes generated'', ''3 nodes expanded''], 0)"
    by (simp add: main_parsed[where content = "''3\<newline>1\<newline>@*#\<newline>''", OF _ parse_example] u finish_def)
  with parse_example u show ?thesis by blast
qed

theorem example_world_ucs_witness:
  "ucs int (State (Some (0, 0)) {(0, 1)}) [''_*#''] =
     Some (Inr [''E'', ''V'', ''2 nodes generated'', ''3 nodes expanded''])"
  using example_world_ucs[of int] by blast

subsection \<open>No solution\<close>

lemma finish_printed_None: "finish (map_option (map_sum id printed) (Some (Inr None))) = Some ([], 0)"
  by (simp add: finish_def printed_def)

text \<open>
  Claim C8. When the chosen search leaves its loop with an empty frontier, the program
  prints nothing at all and ends with status 0.
\<close>

theorem no_solution_prints_nothing:
  assumes "read_file path = Inr content" and "parse_world content = Inr (grid, start, dirt)"
  shows "(dfs_search (State start dirt) grid = Some (Inr None) \<longrightarrow>
            main ident read_file [prog, ''depth-first'', path] = Some ([], 0)) \<and>
         (ucs_search ident (State start dirt) grid = Some (Inr None) \<longrightarrow>
            main ident read_file [prog, ''uniform-cost'', path] = Some ([], 0))"
  using assms by (simp add: main_parsed[where content = content] dfs_def ucs_def finish_def printed_def)

lemma parse_blocked:
  "parse_world ''3\<newline>1\<newline>@#*\<newline>'' = Inr ([''_#*''], Some (0, 0), {(0, 2)})"
  by (simp add: parse_eval)

lemma dfs_blocked: "dfs_search (State (Some (0, 0)) {(0, 2)}) [''_#*''] = Some (Inr None)"
  by (simp add: dfs_eval)

lemma ucs_blocked: "ucs_search ident (State (Some (0, 0)) {(0, 2)}) [''_#*''] = Some (Inr None)"
  by (simp add: ucs_eval)

theorem no_solution_prints_nothing_witness:
  "parse_world ''3\<newline>1\<newline>@#*\<newline>'' = Inr ([''_#*''], Some (0, 0), {(0, 2)}) \<and>
   dfs_search (State (Some (0, 0)) {(0, 2)}) [''_#*''] = Some (Inr None) \<and>
   main int (\<lambda>p. Inr ''3\<newline>1\<newline>@#*\<newline>'') [''planner.py'', ''depth-first'', ''world.txt''] = Some ([], 0) \<and>
   ucs_search int (State (Some (0, 0)) {(0, 2)}) [''_#*''] = Some (Inr None) \<and>
   main int (\<lambda>p. Inr ''3\<newline>1\<newline>@#*\<newline>'') [''planner.py'', ''uniform-cost'', ''world.txt''] = Some ([], 0)"
  using no_solution_prints_nothing[where read_file = "\<lambda>p. Inr ''3\<newline>1\<newline>@#*\<newline>''"
      and path = "''world.txt''" and content = "''3\<newline>1\<newline>@#*\<newline>''" and ident = int
      and prog = "''planner.py''", OF _ parse_blocked]
    parse_blocked dfs_blocked ucs_blocked[of int]
  by simp

subsection \<open>The parser\<close>

lemma last_or_append: "last_or d (xs @ ys) = last_or (last_or d xs) ys"
  by (simp add: last_or_def)

lemma last_or_Cons: "last_or d (x # xs) = last_or (Some x) xs"
  by (simp add: last_or_def)

lemma parse_line_result:
  "parse_line r c line (row, start, dirt) = (row', start', dirt') \<Longrightarrow>
   start' = last_or start (line_markers r c line) \<and> length row' = length row + length line"
proof (induction line arbitrary: c row start dirt)
  case Nil
  then show ?case by (simp add: last_or_def)
next
  case (Cons ch rest)
  show ?case
  proof (cases "ch = CHR ''@''")
    case True
    with Cons.prems
    have "parse_line r (c + 1) rest (row @ [CHR ''_''], Some (r, c), dirt) = (row', start', dirt')"
      by simp
    from Cons.IH[OF this] True show ?thesis by (simp add: last_or_Cons)
  next
    case False
    show ?thesis
    proof (cases "ch = CHR ''*''")
      case True
      with Cons.prems
      have "parse_line r (c + 1) rest (row @ [CHR ''*''], start, insert (r, c) dirt) = (row', start', dirt')"
        by simp
      from Cons.IH[OF this] True show ?thesis by simp
    next
      case star: False
      with Cons.prems False
      have "parse_line r (c + 1) rest (row @ [ch], start, dirt) = (row', start', dirt')"
        by simp
      from Cons.IH[OF this] False show ?thesis by simp
    qed
  qed
qed

lemma parse_rows_result:
  "parse_rows [i..j] f (grid, start, dirt) = (grid', start', dirt') \<Longrightarrow>
   start' = last_or start (markers_from i (read_lines (nat (j - i + 1)) f)) \<and>
   map length grid' = map length grid @ map length (read_lines (nat (j - i + 1)) f)"
proof (induction i j arbitrary: f grid start dirt rule: upto.induct)
  case (1 i j)
  show ?case
  proof (cases "i \<le> j")
    case False
    with "1.prems" show ?thesis by (simp add: upto.simps last_or_def)
  next
    case True
    obtain line f' where rl: "readline f = (line, f')" by (cases "readline f")
    obtain row s1 d1 where pl: "parse_line i 0 (strip line) ([], start, dirt) = (row, s1, d1)"
      by (cases "parse_line i 0 (strip line) ([], start, dirt)")
    from True have up: "[i..j] = i # [i + 1..j]" by (simp add: upto.simps)
    from "1.prems" rl pl have rec: "parse_rows [i + 1..j] f' (grid @ [row], s1, d1) = (grid', start', dirt')"
      unfolding up by simp
    from True have n: "nat (j - i + 1) = Suc (nat (j - (i + 1) + 1))" by simp
    from parse_line_result[OF pl]
    have s1: "s1 = last_or start (line_markers i 0 (strip line))" and lr: "length row = length (strip line)"
      by simp_all
    from "1.IH"[OF True rec] s1 lr rl show ?thesis
      unfolding n by (simp add: last_or_append)
  qed
qed

lemma parse_world_result:
  assumes "py_int (line1 content) = Inr cols" and "py_int (line2 content) = Inr rows"
  shows "\<exists>grid start dirt. parse_world content = Inr (grid, start, dirt) \<and>
     start = last_or None (agent_markers (world_lines content (nat rows))) \<and>
     map length grid = map length (world_lines content (nat rows))"
proof -
  obtain l1 f1 where r1: "readline content = (l1, f1)" by (cases "readline content")
  obtain l2 f2 where r2: "readline f1 = (l2, f2)" by (cases "readline f1")
  obtain grid start dirt where pr: "parse_rows [0..rows - 1] f2 ([], None, {}) = (grid, start, dirt)"
    by (cases "parse_rows [0..rows - 1] f2 ([], None, {})")
  from assms r1 r2 pr have "parse_world content = Inr (grid, start, dirt)"
    by (simp add: parse_world_def line1_def line2_def)
  moreover from parse_rows_result[OF pr] r1 r2
  have "start = last_or None (agent_markers (world_lines content (nat rows)))"
    and "map length grid = map length (world_lines content (nat rows))"
    by (simp_all add: agent_markers_def world_lines_def)
  ultimately show ?thesis by blast
qed

lemma parse_world_Inr:
  assumes "parse_world content = Inr (grid, start, dirt)"
  shows "\<exists>cols rows. py_int (line1 content) = Inr cols \<and> py_int (line2 content) = Inr rows \<and>
    length grid = nat rows"
proof -
  from assms obtain cols rows where h: "py_int (line1 content) = Inr cols" "py_int (line2 content) = Inr rows"
    by (auto simp: parse_world_def line1_def line2_def split: prod.splits sum.splits)
  from parse_world_result[OF h] assms have "map length grid = map length (world_lines content (nat rows))"
    by auto
  then have "length grid = length (world_lines content (nat rows))"
    by (rule map_eq_imp_length_eq)
  moreover have "\<And>n f. length (read_lines n f) = n"
  proof -
    fix n f show "length (read_lines n f) = n"
      by (induction n arbitrary: f) (auto split: prod.splits)
  qed
  ultimately show ?thesis using h by (simp add: world_lines_def)
qed

lemma get_neighbors_None: "get_neighbors (State None d) grid = Inl TypeError"
  by (simp add: get_neighbors_def State_def)

lemma dfs_search_None:
  "d \<noteq> {} \<Longrightarrow> dfs_search (State None d) grid = Some (Inl TypeError)"
  by (simp add: dfs_search_def dfs_loop.simps get_neighbors_None) (simp add: State_def)

lemma ucs_search_None:
  "d \<noteq> {} \<Longrightarrow> ucs_search ident (State None d) grid = Some (Inl TypeError)"
  by (simp add: ucs_search_def ucs_loop.simps heappop_def get_neighbors_None) (simp add: State_def)

text \<open>
  Claim C10. The start position returned by the parser is the last agent marker, in
  reading order, on the grid lines it reads (the declared number of lines after the
  header, each stripped), and \<^verbatim>\<open>None\<close> when there is none. With the position \<^verbatim>\<open>None\<close> the
  successor generator raises TypeError, and so does each search as soon as it expands the
  start state, that is, whenever some cell is dirty.
\<close>

theorem parse_world_start:
  assumes "parse_world content = Inr (grid, start, dirt)"
  shows "start = last_or None (agent_markers (world_lines content (length grid))) \<and>
    (start = None \<longrightarrow>
       get_neighbors (State start dirt) grid = Inl TypeError \<and>
       (dirt \<noteq> {} \<longrightarrow>
          dfs_search (State start dirt) grid = Some (Inl TypeError) \<and>
          ucs_search ident (State start dirt) grid = Some (Inl TypeError)))"
proof -
  from parse_world_Inr[OF assms] obtain cols rows where
    h: "py_int (line1 content) = Inr cols" "py_int (line2 content) = Inr rows" "length grid = nat rows"
    by blast
  from parse_world_result[OF h(1,2)] assms h(3)
  have "start = last_or None (agent_markers (world_lines content (length grid)))" by auto
  then show ?thesis
    by (auto simp: get_neighbors_None dfs_search_None ucs_search_None)
qed

lemma parse_two_agents:
  "parse_world ''3\<newline>2\<newline>@*@\<newline>_@_\<newline>'' = Inr ([''_*_'', ''___''], Some (1, 1), {(0, 1)})"
  by (simp add: parse_eval)

lemma parse_no_agent:
  "parse_world ''2\<newline>1\<newline>_*\<newline>'' = Inr ([''_*''], None, {(0, 1)})"
  by (simp add: parse_eval)

theorem parse_world_start_witness:
  "parse_world ''3\<newline>2\<newline>@*@\<newline>_@_\<newline>'' = Inr ([''_*_'', ''___''], Some (1, 1), {(0, 1)}) \<and>
   agent_markers (world_lines ''3\<newline>2\<newline>@*@\<newline>_@_\<newline>'' 2) = [(0, 0), (0, 2), (1, 1)] \<and>
   Some (1, 1) = last_or None (agent_markers (world_lines ''3\<newline>2\<newline>@*@\<newline>_@_\<newline>'' 2)) \<and>
   parse_world ''2\<newline>1\<newline>_*\<newline>'' = Inr ([''_*''], None, {(0, 1)}) \<and>
   agent_markers (world_lines ''2\<newline>1\<newline>_*\<newline>'' 1) = [] \<and>
   dfs_search (State None {(0, 1)}) [''_*''] = Some (Inl TypeError) \<and>
   ucs_search int (State None {(0, 1)}) [''_*''] = Some (Inl TypeError)"
proof -
  have m1: "agent_markers (world_lines ''3\<newline>2\<newline>@*@\<newline>_@_\<newline>'' 2) = [(0, 0), (0, 2), (1, 1)]"
    by (simp add: agent_markers_def world_lines_def numeral_2_eq_2 linebreak_def strip_def isspace_def)
  have m2: "agent_markers (world_lines ''2\<newline>1\<newline>_*\<newline>'' 1) = []"
    by (simp add: agent_markers_def world_lines_def linebreak_def strip_def isspace_def)
  from parse_world_start[OF parse_two_agents]
  have a: "Some (1, 1) = last_or None (agent_markers (world_lines ''3\<newline>2\<newline>@*@\<newline>_@_\<newline>'' 2))"
    by (simp add: numeral_2_eq_2)
  from parse_world_start[OF parse_no_agent, of int]
  have b: "dfs_search (State None {(0, 1)}) [''_*''] = Some (Inl TypeError) \<and>
    ucs_search int (State None {(0, 1)}) [''_*''] = Some (Inl TypeError)"
    by simp
  from parse_two_agents parse_no_agent m1 m2 a b show ?thesis by blast
qed

lemma py_int_error: "py_int s = Inl e \<Longrightarrow> e = ValueError"
  by (auto simp: py_int_def Let_def split: list.splits if_splits option.splits)

lemma parse_mismatch:
  "parse_world ''5\<newline>1\<newline>@*\<newline>__\<newline>'' = Inr ([''_*''], Some (0, 0), {(0, 1)})"
  by (simp add: parse_eval)

lemma ucs_mismatch:
  "ucs_search ident (State (Some (0, 0)) {(0, 1)}) [''_*''] = Some (Inr (Some ([''E'', ''V''], 2, 3)))"
  by (simp add: ucs_eval)

text \<open>
  Claim C3, as stated, fails: a file that declares 5 columns and 1 row, and holds two grid
  lines of two characters, parses without error, and the program prints a plan and ends
  with status 0.
\<close>

theorem parse_world_counts_unchecked:
  "parse_world ''5\<newline>1\<newline>@*\<newline>__\<newline>'' = Inr ([''_*''], Some (0, 0), {(0, 1)}) \<and>
   main int (\<lambda>p. Inr ''5\<newline>1\<newline>@*\<newline>__\<newline>'') [''planner.py'', ''uniform-cost'', ''world.txt''] =
     Some ([''E'', ''V'', ''2 nodes generated'', ''3 nodes expanded''], 0)"
  by (simp add: main_parsed[where content = "''5\<newline>1\<newline>@*\<newline>__\<newline>''", OF _ parse_mismatch]
      parse_mismatch ucs_def ucs_mismatch finish_def printed_def report_def str_2 str_3)

text \<open>
  Claim C3, amended. Parsing fails exactly when the first or the second header line is not
  an integer literal, always with ValueError; the program then ends with status 1 and has
  printed nothing, as it does when reading the file raises. With both header lines
  integers parsing succeeds whatever follows: the column count is not used, and the grid
  has one row for each of the \<open>rows\<close> lines read after the header, as long as that line is
  after stripping (empty when the text has ended).
\<close>

theorem parse_world_failure:
  "(\<forall>e. parse_world content = Inl e \<longleftrightarrow>
       e = ValueError \<and>
       ((\<exists>e1. py_int (line1 content) = Inl e1) \<or> (\<exists>e2. py_int (line2 content) = Inl e2))) \<and>
   (\<forall>cols rows. py_int (line1 content) = Inr cols \<and> py_int (line2 content) = Inr rows \<longrightarrow>
      (\<exists>grid start dirt. parse_world content = Inr (grid, start, dirt) \<and>
         map length grid = map length (world_lines content (nat rows)))) \<and>
   (\<forall>e. read_file path = Inr content \<and> parse_world content = Inl e \<longrightarrow>
      main ident read_file [prog, alg, path] = Some ([], 1)) \<and>
   (\<forall>e. read_file path = Inl e \<longrightarrow> main ident read_file [prog, alg, path] = Some ([], 1))"
proof -
  have 1: "\<forall>e. parse_world content = Inl e \<longleftrightarrow>
       e = ValueError \<and>
       ((\<exists>e1. py_int (line1 content) = Inl e1) \<or> (\<exists>e2. py_int (line2 content) = Inl e2))"
    by (auto simp: parse_world_def line1_def line2_def split: prod.splits sum.splits
        dest: py_int_error)
  have 2: "\<forall>cols rows. py_int (line1 content) = Inr cols \<and> py_int (line2 content) = Inr rows \<longrightarrow>
      (\<exists>grid start dirt. parse_world content = Inr (grid, start, dirt) \<and>
         map length grid = map length (world_lines content (nat rows)))"
    using parse_world_result by blast
  have 3: "\<forall>e. read_file path = Inr content \<and> parse_world content = Inl e \<longrightarrow>
      main ident read_file [prog, alg, path] = Some ([], 1)"
    by (simp add: main_def)
  have 4: "\<forall>e. read_file path = Inl e \<longrightarrow> main ident read_file [prog, alg, path] = Some ([], 1)"
    by (simp add: main_def)
  from 1 2 3 4 show ?thesis by blast
qed

theorem parse_world_failure_witness:
  "py_int (line1 ''3 x\<newline>1\<newline>@*#\<newline>'') = Inl ValueError \<and>
   parse_world ''3 x\<newline>1\<newline>@*#\<newline>'' = Inl ValueError \<and>
   main int (\<lambda>p. Inr ''3 x\<newline>1\<newline>@*#\<newline>'') [''planner.py'', ''uniform-cost'', ''world.txt''] = Some ([], 1) \<and>
   py_int (line1 ''3\<newline>2\<newline>@*\<newline>'') = Inr 3 \<and> py_int (line2 ''3\<newline>2\<newline>@*\<newline>'') = Inr 2 \<and>
   world_lines ''3\<newline>2\<newline>@*\<newline>'' 2 = [''@*'', ''''] \<and>
   (\<exists>grid start dirt. parse_world ''3\<newline>2\<newline>@*\<newline>'' = Inr (grid, start, dirt) \<and>
         map length grid = map length (world_lines ''3\<newline>2\<newline>@*\<newline>'' (nat 2)))"
proof -
  have a: "py_int (line1 ''3 x\<newline>1\<newline>@*#\<newline>'') = Inl ValueError"
    by (simp add: line1_def parse_eval)
  have b: "py_int (line1 ''3\<newline>2\<newline>@*\<newline>'') = Inr 3" "py_int (line2 ''3\<newline>2\<newline>@*\<newline>'') = Inr 2"
    by (simp_all add: line1_def line2_def parse_eval)
  have c: "world_lines ''3\<newline>2\<newline>@*\<newline>'' 2 = [''@*'', '''']"
    by (simp add: world_lines_def numeral_2_eq_2 linebreak_def strip_def isspace_def)
  note t = parse_world_failure[where content = "''3 x\<newline>1\<newline>@*#\<newline>''" and read_file = "\<lambda>p. Inr ''3 x\<newline>1\<newline>@*#\<newline>''"
      and path = "''world.txt''" and ident = int and prog = "''planner.py''" and alg = "''uniform-cost''"]
  from t a have d: "parse_world ''3 x\<newline>1\<newline>@*#\<newline>'' = Inl ValueError" by blast
  from t d have e: "main int (\<lambda>p. Inr ''3 x\<newline>1\<newline>@*#\<newline>'') [''planner.py'', ''uniform-cost'', ''world.txt''] = Some ([], 1)"
    by blast
  from parse_world_failure[where content = "''3\<newline>2\<newline>@*\<newline>''"] b
  have f: "\<exists>grid start dirt. parse_world ''3\<newline>2\<newline>@*\<newline>'' = Inr (grid, start, dirt) \<and>
         map length grid = map length (world_lines ''3\<newline>2\<newline>@*\<newline>'' (nat 2))"
    by blast
  from a b c d e f show ?thesis by blast
qed

subsection \<open>The state space is finite and closed\<close>

lemma finite_cells: "finite (cells grid)"
proof -
  have "cells grid \<subseteq> {0..<int (length grid)} \<times> {0..<int (length (grid ! 0))}"
    by (auto simp: cells_def)
  then show ?thesis by (rule finite_subset) simp
qed

lemma finite_universe: "finite (universe grid st)"
  unfolding universe_def
  by (intro finite_imageI finite_cartesian_product) (simp_all add: finite_cells)

lemma start_in_universe: "st \<in> universe grid st"
proof -
  have "st = State (position st) (dirty st - {})" by (simp add: State_def)
  then show ?thesis unfolding universe_def by (force simp: image_iff)
qed

lemma legal_cells: "legal grid r c \<Longrightarrow> (r, c) \<in> cells grid"
  by (simp add: legal_def cells_def)

lemma closed_universe: "closed grid (universe grid st)"
  unfolding closed_def
proof (intro allI impI)
  fix s neighbors a n
  assume s: "s \<in> universe grid st" and gn: "get_neighbors s grid = Inr neighbors"
    and an: "(a, n) \<in> set neighbors"
  from s obtain p X where p: "p \<in> insert (position st) (Some ` cells grid)"
    and X: "X \<subseteq> cells grid \<union> set_option (position st)" and s_eq: "s = State p (dirty st - X)"
    by (auto simp: universe_def)
  from get_neighbors_shape[OF gn] obtain r c where pos: "position s = Some (r, c)" and
    nb: "neighbors = concat (map (\<lambda>(a, dr, dc). if legal grid (r + dr) (c + dc)
        then [(a, State (Some (r + dr, c + dc)) (dirty s))] else []) MOVES)
      @ (if (r, c) \<in> dirty s then [(''V'', State (Some (r, c)) (dirty s - {(r, c)}))] else [])"
    by blast
  from an nb consider
    (move) dr dc where "legal grid (r + dr) (c + dc)" "n = State (Some (r + dr, c + dc)) (dirty s)"
    | (vac) "n = State (Some (r, c)) (dirty s - {(r, c)})"
    by (auto split: if_splits)
  then show "n \<in> universe grid st"
  proof cases
    case move
    from move(1) have "(r + dr, c + dc) \<in> cells grid" by (rule legal_cells)
    with move(2) s_eq X show ?thesis
      unfolding universe_def by (force simp: image_iff State_def)
  next
    case vac
    from pos s_eq have pp: "p = Some (r, c)" by (simp add: State_def)
    with p have rc: "(r, c) \<in> cells grid \<union> set_option (position st)" by auto
    have "dirty s - {(r, c)} = dirty st - (insert (r, c) X)" using s_eq by (auto simp: State_def)
    with vac have "n = State p (dirty st - (insert (r, c) X))" using pp by simp
    moreover from rc X have "insert (r, c) X \<subseteq> cells grid \<union> set_option (position st)" by auto
    ultimately show ?thesis using p unfolding universe_def by (force simp: image_iff)
  qed
qed

lemma dfs_push_states:
  "dfs_push nb visited path stack gen = (stack', gen') \<Longrightarrow>
   fst ` set stack' \<subseteq> fst ` set stack \<union> snd ` set nb"
proof (induction nb arbitrary: stack gen)
  case Nil
  then show ?case by simp
next
  case (Cons x nb)
  obtain a n where x: "x = (a, n)" by (cases x)
  show ?case
  proof (cases "n \<in> visited")
    case True
    with Cons.prems x have "dfs_push nb visited path stack gen = (stack', gen')" by simp
    from Cons.IH[OF this] x show ?thesis by auto
  next
    case False
    with Cons.prems x have "dfs_push nb visited path ((n, path @ [a]) # stack) (gen + 1) = (stack', gen')"
      by simp
    from Cons.IH[OF this] x show ?thesis by auto
  qed
qed

lemma dfs_loop_terminates:
  assumes "finite U" and "closed grid U" and "fst ` set stack \<subseteq> U"
  shows "\<exists>r. dfs_loop grid stack visited gen exp = Some r \<and>
    (\<forall>e. r = Inl e \<longrightarrow> (\<exists>s. s \<in> U \<and> get_neighbors s grid = Inl e))"
proof -
  have "wf (inv_image (less_than <*lex*> less_than)
            (\<lambda>(stack, visited). (card (U - visited), length stack)))"
    by (intro wf_inv_image wf_lex_prod wf_less_than)
  then show ?thesis using assms(3)
  proof (induction "(stack, visited)" arbitrary: stack visited gen exp rule: wf_induct_rule)
    case less
    show ?case
    proof (cases stack)
      case Nil
      then show ?thesis by (simp add: dfs_loop.simps)
    next
      case (Cons top stack')
      obtain cur path where top: "top = (cur, path)" by (cases top)
      from less.prems Cons top have curU: "cur \<in> U" and restU: "fst ` set stack' \<subseteq> U" by auto
      show ?thesis
      proof (cases "cur \<in> visited")
        case True
        have "((stack', visited), (stack, visited)) \<in> inv_image (less_than <*lex*> less_than)
            (\<lambda>(stack, visited). (card (U - visited), length stack))"
          using Cons by simp
        from less.hyps[OF this restU, of gen exp] True Cons top show ?thesis
          by (subst dfs_loop.simps) simp
      next
        case False
        show ?thesis
        proof (cases "dirty cur = {}")
          case True
          with False Cons top show ?thesis by (subst dfs_loop.simps) simp
        next
          case dirt: False
          show ?thesis
          proof (cases "get_neighbors cur grid")
            case (Inl e)
            have "dfs_loop grid stack visited gen exp = Some (Inl e)"
              using Inl False dirt Cons top by (subst dfs_loop.simps) simp
            with curU Inl show ?thesis by blast
          next
            case (Inr nb)
            obtain stack'' gen' where push:
              "dfs_push (rev nb) (insert cur visited) path stack' gen = (stack'', gen')"
              by (cases "dfs_push (rev nb) (insert cur visited) path stack' gen")
            from assms(2) curU Inr have "snd ` set nb \<subseteq> U" by (auto simp: closed_def)
            with dfs_push_states[OF push] restU have U'': "fst ` set stack'' \<subseteq> U"
              by simp blast
            have "U - insert cur visited \<subset> U - visited" using curU False by auto
            then have "card (U - insert cur visited) < card (U - visited)"
              using assms(1) by (intro psubset_card_mono) auto
            then have "((stack'', insert cur visited), (stack, visited)) \<in>
               inv_image (less_than <*lex*> less_than)
                 (\<lambda>(stack, visited). (card (U - visited), length stack))"
              by simp
            from less.hyps[OF this U'', of gen' "exp + 1"] False dirt Inr Cons top push
            show ?thesis by (subst dfs_loop.simps) simp
          qed
        qed
      qed
    qed
  qed
qed

lemma dfs_search_terminates:
  "\<exists>r. dfs_search st grid = Some r \<and>
    (\<forall>e. r = Inl e \<longrightarrow> (\<exists>s. s \<in> universe grid st \<and> get_neighbors s grid = Inl e))"
  unfolding dfs_search_def
  by (rule dfs_loop_terminates[where U = "universe grid st", OF finite_universe closed_universe])
    (simp add: start_in_universe)

subsection \<open>Plans, chains and the heap\<close>

lemma exec_append:
  "exec grid st (p @ q) = (case exec grid st p of None \<Rightarrow> None | Some u \<Rightarrow> exec grid u q)"
  by (induction p arbitrary: st) (auto split: sum.splits option.splits)

lemma get_neighbors_distinct:
  assumes "get_neighbors st grid = Inr nb"
  shows "distinct (map fst nb)"
proof -
  from get_neighbors_shape[OF assms] obtain r c where
    nb: "nb = concat (map (\<lambda>(a, dr, dc). if legal grid (r + dr) (c + dc)
        then [(a, State (Some (r + dr, c + dc)) (dirty st))] else []) MOVES)
      @ (if (r, c) \<in> dirty st then [(''V'', State (Some (r, c)) (dirty st - {(r, c)}))] else [])"
    by blast
  show ?thesis unfolding nb MOVES_def by simp
qed

lemma exec_step:
  assumes "get_neighbors st grid = Inr nb" and "(a, n) \<in> set nb"
  shows "exec grid st [a] = Some n"
  using assms get_neighbors_distinct[OF assms(1)] by simp

lemma exec_snoc_step:
  assumes "exec grid st0 p = Some s" and "get_neighbors s grid = Inr nb" and "(a, n) \<in> set nb"
  shows "exec grid st0 (p @ [a]) = Some n"
  using assms(1) exec_step[OF assms(2,3)] by (simp add: exec_append)

lemma exec_snoc_cases:
  assumes "exec grid st0 (p @ [a]) = Some t"
  obtains u nb where "exec grid st0 p = Some u" "get_neighbors u grid = Inr nb" "(a, t) \<in> set nb"
  using assms by (auto simp: exec_append split: option.splits sum.splits dest: map_of_SomeD)

lemma chain_reconstruct:
  "chain cf s plan \<Longrightarrow> reconstruct_loop cf (Some s) acc = Some (Inr (plan @ rev acc))"
proof (induction arbitrary: acc rule: chain.induct)
  case (chain_start s prev)
  then show ?case by (subst reconstruct_loop.simps) simp
next
  case (chain_step s a p plan)
  from chain_step.IH[of "acc @ [a]"] chain_step.hyps(1) show ?case
    by (subst reconstruct_loop.simps) simp
qed

lemma chain_mono:
  "chain cf s plan \<Longrightarrow> (\<And>x. cf x \<noteq> None \<Longrightarrow> cf' x = cf x) \<Longrightarrow> chain cf' s plan"
proof (induction rule: chain.induct)
  case (chain_start s prev)
  then have "cf' s = Some (None, prev)" by simp
  then show ?case by (rule chain.chain_start)
next
  case (chain_step s a p plan)
  then have "cf' s = Some (Some a, Some p)" by simp
  moreover from chain_step have "chain cf' p plan" by simp
  ultimately show ?case by (rule chain.chain_step)
qed

lemma entry_le_total: "entry_le x y \<or> entry_le y x"
  by (cases x; cases y) auto

lemma entry_le_trans: "entry_le x y \<Longrightarrow> entry_le y z \<Longrightarrow> entry_le x z"
  by (cases x; cases y; cases z) auto

lemma entry_le_refl: "entry_le x x"
  by (cases x) auto

lemma heap_least_props:
  "heap_least e es = (m, rest) \<Longrightarrow>
   set (e # es) = insert m (set rest) \<and> length rest = length es \<and> (\<forall>x \<in> set (e # es). entry_le m x)"
proof (induction es arbitrary: e m rest)
  case Nil
  then show ?case by (auto simp: entry_le_refl)
next
  case (Cons x xs)
  obtain m' rest' where rec: "heap_least x xs = (m', rest')" by (cases "heap_least x xs")
  from Cons.IH[OF rec] have ih: "set (x # xs) = insert m' (set rest')" "length rest' = length xs"
    "\<forall>y \<in> set (x # xs). entry_le m' y" by auto
  show ?case
  proof (cases "entry_le e m'")
    case True
    with Cons.prems rec have "m = e" "rest = x # xs" by auto
    moreover have "\<forall>y \<in> set (x # xs). entry_le e y"
      using ih(3) True entry_le_trans by blast
    ultimately show ?thesis by (auto simp: entry_le_refl)
  next
    case False
    with Cons.prems rec have mr: "m = m'" "rest = e # rest'" by auto
    from False entry_le_total have "entry_le m' e" by blast
    with mr ih show ?thesis by auto
  qed
qed

lemma entry_le_cost: "entry_le (c, i, s) (c', i', s') \<Longrightarrow> c \<le> c'"
  by auto

lemma ucs_relax_result:
  assumes "ucs_relax ident c cur nb (h, cf, cost, gen) = (h', cf', cost', gen')"
    and "\<forall>s k. cost s = Some k \<longrightarrow> k \<le> c + 1"
  shows "(\<forall>s k. cost s = Some k \<longrightarrow> cost' s = Some k) \<and>
    (\<forall>s k. cost' s = Some k \<longrightarrow> cost s = None \<longrightarrow>
        k = c + 1 \<and> (\<exists>a. (a, s) \<in> set nb \<and> cf' s = Some (Some a, Some cur)) \<and>
        (\<exists>i. (c + 1, i, s) \<in> set h')) \<and>
    (\<forall>a n. (a, n) \<in> set nb \<longrightarrow> cost' n \<noteq> None) \<and>
    (\<forall>s. cost s \<noteq> None \<longrightarrow> cf' s = cf s) \<and>
    (\<forall>s. cost' s = None \<longrightarrow> cf' s = cf s) \<and>
    set h \<subseteq> set h' \<and>
    (\<forall>e \<in> set h'. e \<in> set h \<or> (\<exists>i n. e = (c + 1, i, n) \<and> cost n = None \<and> n \<in> snd ` set nb)) \<and>
    ((\<forall>a n. (a, n) \<in> set nb \<longrightarrow> cost n \<noteq> None) \<longrightarrow> h' = h)"
  using assms
proof (induction nb arbitrary: h cf cost gen)
  case Nil
  then show ?case by auto
next
  case (Cons x nb)
  obtain a n where x: "x = (a, n)" by (cases x)
  show ?case
  proof (cases "cost n")
    case None
    let ?h1 = "heappush h (c + 1, ident (gen + 1), n)"
    let ?cf1 = "cf(n \<mapsto> (Some a, Some cur))"
    let ?cost1 = "cost(n \<mapsto> c + 1)"
    from Cons.prems(1) x None
    have rec: "ucs_relax ident c cur nb (?h1, ?cf1, ?cost1, gen + 1) = (h', cf', cost', gen')"
      by simp
    have b1: "\<forall>s k. ?cost1 s = Some k \<longrightarrow> k \<le> c + 1" using Cons.prems(2) by auto
    note ih = Cons.IH[OF rec b1]
    from ih have i1: "\<And>s k. ?cost1 s = Some k \<Longrightarrow> cost' s = Some k" by blast
    from ih have i2: "\<And>s k. cost' s = Some k \<Longrightarrow> ?cost1 s = None \<Longrightarrow>
        k = c + 1 \<and> (\<exists>a. (a, s) \<in> set nb \<and> cf' s = Some (Some a, Some cur)) \<and>
        (\<exists>i. (c + 1, i, s) \<in> set h')" by blast
    from ih have i3: "\<And>a n. (a, n) \<in> set nb \<Longrightarrow> cost' n \<noteq> None" by blast
    from ih have i4: "\<And>s. ?cost1 s \<noteq> None \<Longrightarrow> cf' s = ?cf1 s" by blast
    from ih have i5: "\<And>s. cost' s = None \<Longrightarrow> cf' s = ?cf1 s" by blast
    from ih have i6: "set ?h1 \<subseteq> set h'" by blast
    from ih have i7: "\<And>e. e \<in> set h' \<Longrightarrow> e \<in> set ?h1 \<or>
        (\<exists>i n'. e = (c + 1, i, n') \<and> ?cost1 n' = None \<and> n' \<in> snd ` set nb)" by blast
    have n': "cost' n = Some (c + 1)" using i1[of n "c + 1"] by simp
    have c1: "\<forall>s k. cost s = Some k \<longrightarrow> cost' s = Some k"
      using i1 None by (metis fun_upd_apply option.distinct(1))
    have c2: "\<forall>s k. cost' s = Some k \<longrightarrow> cost s = None \<longrightarrow>
        k = c + 1 \<and> (\<exists>a. (a, s) \<in> set (x # nb) \<and> cf' s = Some (Some a, Some cur)) \<and>
        (\<exists>i. (c + 1, i, s) \<in> set h')"
    proof (intro allI impI)
      fix s k assume sk: "cost' s = Some k" and cn: "cost s = None"
      show "k = c + 1 \<and> (\<exists>a. (a, s) \<in> set (x # nb) \<and> cf' s = Some (Some a, Some cur)) \<and>
        (\<exists>i. (c + 1, i, s) \<in> set h')"
      proof (cases "s = n")
        case True
        from True sk n' have "k = c + 1" by simp
        moreover from i4[of n] True have "cf' s = Some (Some a, Some cur)" by simp
        moreover from i6 True have "(c + 1, ident (gen + 1), s) \<in> set h'"
          by (auto simp: heappush_def)
        ultimately show ?thesis using x True by auto
      next
        case False
        with cn have "?cost1 s = None" by simp
        from i2[OF sk this] show ?thesis by auto
      qed
    qed
    have c3: "\<forall>a' n'. (a', n') \<in> set (x # nb) \<longrightarrow> cost' n' \<noteq> None"
      using i3 n' x by auto
    have c4: "\<forall>s. cost s \<noteq> None \<longrightarrow> cf' s = cf s"
      using i4 None by (metis fun_upd_apply)
    have c5: "\<forall>s. cost' s = None \<longrightarrow> cf' s = cf s"
      using i5 n' by (metis fun_upd_apply option.distinct(1))
    have c6: "set h \<subseteq> set h'" using i6 by (auto simp: heappush_def)
    have c7: "\<forall>e \<in> set h'. e \<in> set h \<or> (\<exists>i n'. e = (c + 1, i, n') \<and> cost n' = None \<and> n' \<in> snd ` set (x # nb))"
    proof
      fix e assume "e \<in> set h'"
      from i7[OF this] show "e \<in> set h \<or> (\<exists>i n'. e = (c + 1, i, n') \<and> cost n' = None \<and> n' \<in> snd ` set (x # nb))"
      proof
        assume "e \<in> set ?h1"
        then have "e \<in> set h \<or> e = (c + 1, ident (gen + 1), n)" by (auto simp: heappush_def)
        then show ?thesis using None x by auto
      next
        assume "\<exists>i n'. e = (c + 1, i, n') \<and> ?cost1 n' = None \<and> n' \<in> snd ` set nb"
        then obtain i n' where e: "e = (c + 1, i, n')" and cn: "?cost1 n' = None" and mem: "n' \<in> snd ` set nb"
          by blast
        from cn have "cost n' = None" by (auto split: if_splits)
        with e mem show ?thesis by auto
      qed
    qed
    have c8: "(\<forall>a' n'. (a', n') \<in> set (x # nb) \<longrightarrow> cost n' \<noteq> None) \<longrightarrow> h' = h"
      using None x by auto
    from c1 c2 c3 c4 c5 c6 c7 c8 show ?thesis by blast
  next
    case (Some k0)
    with Cons.prems(2) have "k0 \<le> c + 1" by blast
    with Cons.prems(1) x Some
    have rec: "ucs_relax ident c cur nb (h, cf, cost, gen) = (h', cf', cost', gen')"
      by simp
    note ih = Cons.IH[OF rec Cons.prems(2)]
    from ih have c1: "\<forall>s k. cost s = Some k \<longrightarrow> cost' s = Some k" by blast
    from ih have i2: "\<And>s k. cost' s = Some k \<Longrightarrow> cost s = None \<Longrightarrow>
        k = c + 1 \<and> (\<exists>a. (a, s) \<in> set nb \<and> cf' s = Some (Some a, Some cur)) \<and>
        (\<exists>i. (c + 1, i, s) \<in> set h')" by blast
    from ih have i3: "\<And>a n. (a, n) \<in> set nb \<Longrightarrow> cost' n \<noteq> None" by blast
    from ih have c4: "\<forall>s. cost s \<noteq> None \<longrightarrow> cf' s = cf s" by blast
    from ih have c5: "\<forall>s. cost' s = None \<longrightarrow> cf' s = cf s" by blast
    from ih have c6: "set h \<subseteq> set h'" by blast
    from ih have i7: "\<And>e. e \<in> set h' \<Longrightarrow> e \<in> set h \<or>
        (\<exists>i n'. e = (c + 1, i, n') \<and> cost n' = None \<and> n' \<in> snd ` set nb)" by blast
    from ih have i8: "(\<forall>a n. (a, n) \<in> set nb \<longrightarrow> cost n \<noteq> None) \<Longrightarrow> h' = h" by blast
    have n': "cost' n \<noteq> None" using c1 Some by simp
    have c2: "\<forall>s k. cost' s = Some k \<longrightarrow> cost s = None \<longrightarrow>
        k = c + 1 \<and> (\<exists>a. (a, s) \<in> set (x # nb) \<and> cf' s = Some (Some a, Some cur)) \<and>
        (\<exists>i. (c + 1, i, s) \<in> set h')"
    proof (intro allI impI)
      fix s k assume "cost' s = Some k" "cost s = None"
      from i2[OF this] show "k = c + 1 \<and> (\<exists>a. (a, s) \<in> set (x # nb) \<and> cf' s = Some (Some a, Some cur)) \<and>
        (\<exists>i. (c + 1, i, s) \<in> set h')" by auto
    qed
    have c3: "\<forall>a' n'. (a', n') \<in> set (x # nb) \<longrightarrow> cost' n' \<noteq> None"
      using i3 n' x by auto
    have c7: "\<forall>e \<in> set h'. e \<in> set h \<or> (\<exists>i n'. e = (c + 1, i, n') \<and> cost n' = None \<and> n' \<in> snd ` set (x # nb))"
    proof
      fix e assume "e \<in> set h'"
      from i7[OF this] show "e \<in> set h \<or> (\<exists>i n'. e = (c + 1, i, n') \<and> cost n' = None \<and> n' \<in> snd ` set (x # nb))"
        by auto
    qed
    have c8: "(\<forall>a' n'. (a', n') \<in> set (x # nb) \<longrightarrow> cost n' \<noteq> None) \<longrightarrow> h' = h"
      using i8 by simp
    from c1 c2 c3 c4 c5 c6 c7 c8 show ?thesis by blast
  qed
qed

subsection \<open>The invariant is kept\<close>

lemma heap_states_iff: "s \<in> heap_states h \<longleftrightarrow> (\<exists>c i. (c, i, s) \<in> set h)"
  by (force simp: heap_states_def)

lemma ucs_frontier:
  assumes inv: "ucs_inv grid st0 U heap cf cost" and ex: "exec grid st0 p = Some t"
  shows "(\<exists>k. cost t = Some k \<and> k \<le> length p \<and> t \<notin> heap_states heap) \<or>
         (\<exists>c i t'. (c, i, t') \<in> set heap \<and> c \<le> length p)"
  using ex
proof (induction p arbitrary: t rule: rev_induct)
  case Nil
  then have t: "t = st0" by simp
  from inv have c0: "cost st0 = Some 0" by (simp add: ucs_inv_def)
  show ?case
  proof (cases "st0 \<in> heap_states heap")
    case True
    then obtain c i where mem: "(c, i, st0) \<in> set heap" by (auto simp: heap_states_def)
    with inv have "cost st0 = Some c" unfolding ucs_inv_def by blast
    with c0 have "c = 0" by simp
    with mem show ?thesis by auto
  next
    case False
    with c0 t show ?thesis by simp
  qed
next
  case (snoc a p)
  from snoc.prems obtain u nb where u: "exec grid st0 p = Some u"
    and gn: "get_neighbors u grid = Inr nb" and mem: "(a, t) \<in> set nb"
    by (rule exec_snoc_cases)
  from snoc.IH[OF u] show ?case
  proof
    assume "\<exists>k. cost u = Some k \<and> k \<le> length p \<and> u \<notin> heap_states heap"
    then obtain k where k: "cost u = Some k" "k \<le> length p" "u \<notin> heap_states heap" by blast
    from inv k(1,3) have "\<exists>nb. get_neighbors u grid = Inr nb \<and>
           (\<forall>a n. (a, n) \<in> set nb \<longrightarrow> (\<exists>k'. cost n = Some k' \<and> k' \<le> k + 1))"
      unfolding ucs_inv_def by blast
    with gn mem obtain k' where k': "cost t = Some k'" "k' \<le> k + 1" by auto
    show ?thesis
    proof (cases "t \<in> heap_states heap")
      case True
      then obtain c i where hm: "(c, i, t) \<in> set heap" by (auto simp: heap_states_def)
      with inv have "cost t = Some c" unfolding ucs_inv_def by blast
      with k' have "c = k'" by simp
      moreover have "k' \<le> length (p @ [a])" using k'(2) k(2) by simp
      ultimately have "(c, i, t) \<in> set heap \<and> c \<le> length (p @ [a])" using hm by simp
      then show ?thesis by blast
    next
      case False
      moreover have "k' \<le> length (p @ [a])" using k'(2) k(2) by simp
      ultimately show ?thesis using k'(1) by blast
    qed
  next
    assume "\<exists>c i t'. (c, i, t') \<in> set heap \<and> c \<le> length p"
    then obtain c i t' where "(c, i, t') \<in> set heap" "c \<le> length p" by blast
    then have "(c, i, t') \<in> set heap \<and> c \<le> length (p @ [a])" by simp
    then show ?thesis by blast
  qed
qed

lemma ucs_inv_step:
  assumes fin: "finite U" and cl: "closed grid U"
    and inv: "ucs_inv grid st0 U heap cf cost"
    and heap: "heap = e # es" and pop: "heap_least e es = ((c, i, cur), heap')"
    and dirt: "dirty cur \<noteq> {}" and gn: "get_neighbors cur grid = Inr nb"
    and relax: "ucs_relax ident c cur nb (heap', cf, cost, gen) = (heap'', cf', cost', gen')"
  shows "ucs_inv grid st0 U heap'' cf' cost'"
    and "card (U - dom cost') < card (U - dom cost) \<or>
         (card (U - dom cost') = card (U - dom cost) \<and> length heap'' < length heap)"
proof -
  from heap_least_props[OF pop] heap have
    hset: "set heap = insert (c, i, cur) (set heap')" and hlen: "length heap' = length es"
    and hmin: "\<forall>x \<in> set heap. entry_le (c, i, cur) x" by auto
  from hset have cur_mem: "(c, i, cur) \<in> set heap" by simp
  from inv have
    i0: "heap_states heap \<subseteq> U" and i1: "cost st0 = Some 0"
    and i2: "\<And>c i s. (c, i, s) \<in> set heap \<Longrightarrow> cost s = Some c"
    and i3: "\<And>s k. cost s = Some k \<Longrightarrow>
        \<exists>plan. length plan = k \<and> exec grid st0 plan = Some s \<and> chain cf s plan"
    and i4: "\<And>s k. cost s = Some k \<Longrightarrow> s \<notin> heap_states heap \<Longrightarrow>
        dirty s \<noteq> {} \<and>
        (\<exists>nb. get_neighbors s grid = Inr nb \<and>
           (\<forall>a n. (a, n) \<in> set nb \<longrightarrow> (\<exists>k'. cost n = Some k' \<and> k' \<le> k + 1)))"
    and i5: "\<And>s k c i s'. cost s = Some k \<Longrightarrow> (c, i, s') \<in> set heap \<Longrightarrow> k \<le> c + 1"
    and i6: "\<And>s. cf s \<noteq> None \<Longrightarrow> cost s \<noteq> None"
    unfolding ucs_inv_def by blast+
  from i0 cur_mem have curU: "cur \<in> U" by (force simp: heap_states_def)
  from i2[OF cur_mem] have cost_cur: "cost cur = Some c" .
  have bound: "\<forall>s k. cost s = Some k \<longrightarrow> k \<le> c + 1" using i5 cur_mem by blast
  from cl curU gn have nbU: "\<And>a n. (a, n) \<in> set nb \<Longrightarrow> n \<in> U" unfolding closed_def by blast
  note r = ucs_relax_result[OF relax bound]
  from r have r1: "\<And>s k. cost s = Some k \<Longrightarrow> cost' s = Some k" by blast
  from r have r2: "\<And>s k. cost' s = Some k \<Longrightarrow> cost s = None \<Longrightarrow>
        k = c + 1 \<and> (\<exists>a. (a, s) \<in> set nb \<and> cf' s = Some (Some a, Some cur)) \<and>
        (\<exists>i. (c + 1, i, s) \<in> set heap'')" by blast
  from r have r3: "\<And>a n. (a, n) \<in> set nb \<Longrightarrow> cost' n \<noteq> None" by blast
  from r have r4: "\<And>s. cost s \<noteq> None \<Longrightarrow> cf' s = cf s" by blast
  from r have r5: "\<And>s. cost' s = None \<Longrightarrow> cf' s = cf s" by blast
  from r have r6: "set heap' \<subseteq> set heap''" by blast
  from r have r7: "\<And>e. e \<in> set heap'' \<Longrightarrow> e \<in> set heap' \<or>
        (\<exists>i n. e = (c + 1, i, n) \<and> cost n = None \<and> n \<in> snd ` set nb)" by blast
  from r have r8: "(\<forall>a n. (a, n) \<in> set nb \<longrightarrow> cost n \<noteq> None) \<Longrightarrow> heap'' = heap'" by blast
  have cost'_le: "\<And>s k. cost' s = Some k \<Longrightarrow> k \<le> c + 1"
  proof -
    fix s k assume sk: "cost' s = Some k"
    show "k \<le> c + 1"
    proof (cases "cost s")
      case None
      from r2[OF sk None] show ?thesis by simp
    next
      case (Some k0)
      from r1[OF Some] sk have "k = k0" by simp
      with bound Some show ?thesis by blast
    qed
  qed
  have cfmono: "\<And>x. cf x \<noteq> None \<Longrightarrow> cf' x = cf x" using i6 r4 by blast
  have j0: "heap_states heap'' \<subseteq> U"
  proof
    fix s assume "s \<in> heap_states heap''"
    then obtain c2 i2 where m: "(c2, i2, s) \<in> set heap''" by (auto simp: heap_states_def)
    from r7[OF m] show "s \<in> U"
    proof
      assume "(c2, i2, s) \<in> set heap'"
      with hset have "(c2, i2, s) \<in> set heap" by auto
      with i0 show ?thesis by (force simp: heap_states_def)
    next
      assume "\<exists>i n. (c2, i2, s) = (c + 1, i, n) \<and> cost n = None \<and> n \<in> snd ` set nb"
      then have "s \<in> snd ` set nb" by auto
      with nbU show ?thesis by auto
    qed
  qed
  have j1: "cost' st0 = Some 0" using r1[OF i1] .
  have j2: "\<forall>c2 i2 s. (c2, i2, s) \<in> set heap'' \<longrightarrow> cost' s = Some c2"
  proof (intro allI impI)
    fix c2 i2 s assume m: "(c2, i2, s) \<in> set heap''"
    from r7[OF m] show "cost' s = Some c2"
    proof
      assume "(c2, i2, s) \<in> set heap'"
      with hset have "(c2, i2, s) \<in> set heap" by auto
      from r1[OF i2[OF this]] show ?thesis .
    next
      assume "\<exists>i n. (c2, i2, s) = (c + 1, i, n) \<and> cost n = None \<and> n \<in> snd ` set nb"
      then have c2: "c2 = c + 1" and cn: "cost s = None" and mem: "s \<in> snd ` set nb" by auto
      from mem r3 obtain k where k: "cost' s = Some k" by fastforce
      from r2[OF k cn] c2 k show ?thesis by simp
    qed
  qed
  have j3: "\<forall>s k. cost' s = Some k \<longrightarrow>
        (\<exists>plan. length plan = k \<and> exec grid st0 plan = Some s \<and> chain cf' s plan)"
  proof (intro allI impI)
    fix s k assume sk: "cost' s = Some k"
    show "\<exists>plan. length plan = k \<and> exec grid st0 plan = Some s \<and> chain cf' s plan"
    proof (cases "cost s")
      case (Some k0)
      from r1[OF Some] sk have "k = k0" by simp
      with i3[OF Some] obtain plan where "length plan = k" "exec grid st0 plan = Some s"
        "chain cf s plan" by blast
      moreover from this(3) have "chain cf' s plan" by (rule chain_mono) (rule cfmono)
      ultimately show ?thesis by blast
    next
      case None
      from r2[OF sk None] obtain a where k: "k = c + 1" and a: "(a, s) \<in> set nb"
        and cfs: "cf' s = Some (Some a, Some cur)" by blast
      from i3[OF cost_cur] obtain plan where pl: "length plan = c" "exec grid st0 plan = Some cur"
        "chain cf cur plan" by blast
      from pl(3) have "chain cf' cur plan" by (rule chain_mono) (rule cfmono)
      with cfs have "chain cf' s (plan @ [a])" by (rule chain.chain_step)
      moreover from exec_snoc_step[OF pl(2) gn a] have "exec grid st0 (plan @ [a]) = Some s" .
      ultimately show ?thesis using pl(1) k by (intro exI[of _ "plan @ [a]"]) simp
    qed
  qed
  have j4: "\<forall>s k. cost' s = Some k \<longrightarrow> s \<notin> heap_states heap'' \<longrightarrow>
        dirty s \<noteq> {} \<and>
        (\<exists>nb. get_neighbors s grid = Inr nb \<and>
           (\<forall>a n. (a, n) \<in> set nb \<longrightarrow> (\<exists>k'. cost' n = Some k' \<and> k' \<le> k + 1)))"
  proof (intro allI impI)
    fix s k assume sk: "cost' s = Some k" and nh: "s \<notin> heap_states heap''"
    have "cost s \<noteq> None"
    proof
      assume "cost s = None"
      from r2[OF sk this] have "s \<in> heap_states heap''" unfolding heap_states_iff by blast
      with nh show False by simp
    qed
    then obtain k0 where k0: "cost s = Some k0" by auto
    from r1[OF k0] sk have kk: "k = k0" by simp
    show "dirty s \<noteq> {} \<and>
        (\<exists>nb. get_neighbors s grid = Inr nb \<and>
           (\<forall>a n. (a, n) \<in> set nb \<longrightarrow> (\<exists>k'. cost' n = Some k' \<and> k' \<le> k + 1)))"
    proof (cases "s \<in> heap_states heap")
      case False
      from i4[OF k0 False] obtain nb0 where d: "dirty s \<noteq> {}" and g: "get_neighbors s grid = Inr nb0"
        and n0: "\<And>a n. (a, n) \<in> set nb0 \<Longrightarrow> \<exists>k'. cost n = Some k' \<and> k' \<le> k0 + 1" by blast
      have "\<forall>a n. (a, n) \<in> set nb0 \<longrightarrow> (\<exists>k'. cost' n = Some k' \<and> k' \<le> k + 1)"
        using n0 r1 kk by blast
      with d g show ?thesis by blast
    next
      case True
      from nh r6 have "s \<notin> heap_states heap'" unfolding heap_states_iff by blast
      with True hset have s: "s = cur" unfolding heap_states_iff by auto
      with k0 cost_cur kk have kc: "k = c" by simp
      have "\<forall>a n. (a, n) \<in> set nb \<longrightarrow> (\<exists>k'. cost' n = Some k' \<and> k' \<le> k + 1)"
      proof (intro allI impI)
        fix a n assume "(a, n) \<in> set nb"
        from r3[OF this] obtain k' where "cost' n = Some k'" by auto
        with cost'_le[OF this] kc show "\<exists>k'. cost' n = Some k' \<and> k' \<le> k + 1" by auto
      qed
      with s dirt gn show ?thesis by blast
    qed
  qed
  have j5: "\<forall>s k c2 i2 s'. cost' s = Some k \<longrightarrow> (c2, i2, s') \<in> set heap'' \<longrightarrow> k \<le> c2 + 1"
  proof (intro allI impI)
    fix s k c2 i2 s' assume sk: "cost' s = Some k" and m: "(c2, i2, s') \<in> set heap''"
    have "c \<le> c2"
      using r7[OF m]
    proof
      assume "(c2, i2, s') \<in> set heap'"
      with hset have "(c2, i2, s') \<in> set heap" by auto
      with hmin have "entry_le (c, i, cur) (c2, i2, s')" by blast
      then show ?thesis by (rule entry_le_cost)
    next
      assume "\<exists>i n. (c2, i2, s') = (c + 1, i, n) \<and> cost n = None \<and> n \<in> snd ` set nb"
      then show ?thesis by auto
    qed
    with cost'_le[OF sk] show "k \<le> c2 + 1" by simp
  qed
  have j6: "\<forall>s. cf' s \<noteq> None \<longrightarrow> cost' s \<noteq> None"
  proof (intro allI impI)
    fix s assume c: "cf' s \<noteq> None"
    show "cost' s \<noteq> None"
    proof
      assume n: "cost' s = None"
      from r5[OF n] c have "cf s \<noteq> None" by simp
      from i6[OF this] obtain k where "cost s = Some k" by auto
      from r1[OF this] n show False by simp
    qed
  qed
  from j0 j1 j2 j3 j4 j5 j6 show "ucs_inv grid st0 U heap'' cf' cost'"
    unfolding ucs_inv_def by blast
  have dom_mono: "dom cost \<subseteq> dom cost'" using r1 by (auto simp: dom_def)
  show "card (U - dom cost') < card (U - dom cost) \<or>
         (card (U - dom cost') = card (U - dom cost) \<and> length heap'' < length heap)"
  proof (cases "\<forall>a n. (a, n) \<in> set nb \<longrightarrow> cost n \<noteq> None")
    case True
    from r8[OF True] have h: "heap'' = heap'" .
    have "dom cost' = dom cost"
    proof
      show "dom cost' \<subseteq> dom cost"
      proof
        fix s assume "s \<in> dom cost'"
        then obtain k where k: "cost' s = Some k" by auto
        show "s \<in> dom cost"
        proof (rule ccontr)
          assume "s \<notin> dom cost"
          then have cn: "cost s = None" by auto
          from r2[OF k cn] True cn show False by blast
        qed
      qed
    qed (rule dom_mono)
    with h hlen heap show ?thesis by simp
  next
    case False
    then obtain a n where an: "(a, n) \<in> set nb" and cn: "cost n = None" by blast
    from r3[OF an] have "n \<in> dom cost'" by auto
    moreover from cn have "n \<notin> dom cost" by auto
    moreover from nbU[OF an] have "n \<in> U" .
    ultimately have "U - dom cost' \<subset> U - dom cost" using dom_mono by auto
    then have "card (U - dom cost') < card (U - dom cost)"
      using fin by (intro psubset_card_mono) auto
    then show ?thesis by simp
  qed
qed

lemma ucs_inv_heapU:
  assumes "ucs_inv grid st0 U heap cf cost" and "(c, i, s) \<in> set heap"
  shows "s \<in> U"
proof -
  from assms(1) have "heap_states heap \<subseteq> U" by (simp add: ucs_inv_def)
  moreover from assms(2) have "s \<in> heap_states heap" unfolding heap_states_iff by blast
  ultimately show ?thesis by blast
qed

lemma ucs_inv_cost:
  assumes "ucs_inv grid st0 U heap cf cost" and "(c, i, s) \<in> set heap"
  shows "cost s = Some c"
proof -
  from assms(1) have "\<forall>c i s. (c, i, s) \<in> set heap \<longrightarrow> cost s = Some c"
    by (simp add: ucs_inv_def)
  with assms(2) show ?thesis by blast
qed

lemma ucs_inv_plan:
  assumes "ucs_inv grid st0 U heap cf cost" and "cost s = Some k"
  shows "\<exists>plan. length plan = k \<and> exec grid st0 plan = Some s \<and> chain cf s plan"
proof -
  from assms(1) have "\<forall>s k. cost s = Some k \<longrightarrow>
        (\<exists>plan. length plan = k \<and> exec grid st0 plan = Some s \<and> chain cf s plan)"
    by (simp add: ucs_inv_def)
  with assms(2) show ?thesis by blast
qed

lemma ucs_inv_expanded:
  assumes "ucs_inv grid st0 U heap cf cost" and "cost s = Some k" and "s \<notin> heap_states heap"
  shows "dirty s \<noteq> {}"
proof -
  from assms(1) have "\<forall>s k. cost s = Some k \<longrightarrow> s \<notin> heap_states heap \<longrightarrow>
        dirty s \<noteq> {} \<and>
        (\<exists>nb. get_neighbors s grid = Inr nb \<and>
           (\<forall>a n. (a, n) \<in> set nb \<longrightarrow> (\<exists>k'. cost n = Some k' \<and> k' \<le> k + 1)))"
    by (simp add: ucs_inv_def)
  with assms(2,3) show ?thesis by blast
qed

lemma ucs_no_plan:
  assumes inv: "ucs_inv grid st0 U [] cf cost"
  shows "\<not> clears grid st0 plan"
proof
  assume "clears grid st0 plan"
  then obtain t where t: "exec grid st0 plan = Some t" "dirty t = {}"
    by (auto simp: clears_def split: option.splits)
  from ucs_frontier[OF inv t(1)] obtain k where "cost t = Some k" "t \<notin> heap_states []"
    by auto
  from ucs_inv_expanded[OF inv this] t(2) show False by simp
qed

lemma ucs_goal:
  assumes inv: "ucs_inv grid st0 U heap cf cost"
    and heap: "heap = e # es" and pop: "heap_least e es = ((c, i, cur), heap')"
    and goal: "dirty cur = {}"
  shows "\<exists>path. reconstruct_path cf cur = Some (Inr path) \<and> clears grid st0 path \<and>
     (\<forall>plan. clears grid st0 plan \<longrightarrow> length path \<le> length plan)"
proof -
  from heap_least_props[OF pop] heap have
    cur_mem: "(c, i, cur) \<in> set heap" and hmin: "\<forall>x \<in> set heap. entry_le (c, i, cur) x" by auto
  from ucs_inv_cost[OF inv cur_mem] have "cost cur = Some c" .
  from ucs_inv_plan[OF inv this] obtain path where
    path: "length path = c" "exec grid st0 path = Some cur" "chain cf cur path"
    by blast
  from chain_reconstruct[OF path(3), of "[]"] have rp: "reconstruct_path cf cur = Some (Inr path)"
    by (simp add: reconstruct_path_def)
  from path(2) goal have cl: "clears grid st0 path" by (simp add: clears_def)
  have "\<forall>plan. clears grid st0 plan \<longrightarrow> length path \<le> length plan"
  proof (intro allI impI)
    fix plan assume "clears grid st0 plan"
    then obtain t where t: "exec grid st0 plan = Some t" "dirty t = {}"
      by (auto simp: clears_def split: option.splits)
    from ucs_frontier[OF inv t(1)] show "length path \<le> length plan"
    proof
      assume "\<exists>k. cost t = Some k \<and> k \<le> length plan \<and> t \<notin> heap_states heap"
      then obtain k where "cost t = Some k" "t \<notin> heap_states heap" by blast
      from ucs_inv_expanded[OF inv this] t(2) show ?thesis by simp
    next
      assume "\<exists>c i t'. (c, i, t') \<in> set heap \<and> c \<le> length plan"
      then obtain c2 i2 t' where m: "(c2, i2, t') \<in> set heap" and le: "c2 \<le> length plan" by blast
      from hmin m have "entry_le (c, i, cur) (c2, i2, t')" by blast
      then have "c \<le> c2" by (rule entry_le_cost)
      with le path(1) show ?thesis by simp
    qed
  qed
  with rp cl show ?thesis by blast
qed


lemma ucs_loop_total:
  assumes fin: "finite U" and cl: "closed grid U"
    and inv: "ucs_inv grid st0 U heap cf cost"
  shows "\<exists>r. ucs_loop ident grid heap cf cost gen exp = Some r \<and> ucs_post grid st0 U r"
proof -
  have "wf (inv_image (less_than <*lex*> less_than)
            (\<lambda>(heap, cost :: cost_so_far). (card (U - dom cost), length heap)))"
    by (intro wf_inv_image wf_lex_prod wf_less_than)
  then show ?thesis using inv
  proof (induction "(heap, cost)" arbitrary: heap cf cost gen exp rule: wf_induct_rule)
    case less
    note inv = less.prems
    show ?case
    proof (cases heap)
      case Nil
      have "ucs_loop ident grid heap cf cost gen exp = Some (Inr None)"
        using Nil by (subst ucs_loop.simps) (simp add: heappop_def)
      moreover have "ucs_post grid st0 U (Inr None)"
        using ucs_no_plan[OF inv[unfolded Nil]] by (simp add: ucs_post_def)
      ultimately show ?thesis by blast
    next
      case (Cons e es)
      obtain c i cur heap' where pop: "heap_least e es = ((c, i, cur), heap')"
        by (cases "heap_least e es") auto
      have hp: "heappop heap = Inr ((c, i, cur), heap')"
        using Cons pop by (simp add: heappop_def)
      from heap_least_props[OF pop] Cons have cur_mem: "(c, i, cur) \<in> set heap" by auto
      from ucs_inv_heapU[OF inv cur_mem] have curU: "cur \<in> U" .
      show ?thesis
      proof (cases "dirty cur = {}")
        case True
        from ucs_goal[OF inv Cons pop True] obtain path where
          rp: "reconstruct_path cf cur = Some (Inr path)" and c: "clears grid st0 path"
          and opt: "\<forall>plan. clears grid st0 plan \<longrightarrow> length path \<le> length plan" by blast
        have "ucs_loop ident grid heap cf cost gen exp = Some (Inr (Some (path, gen, exp + 1)))"
          using Cons hp True rp by (subst ucs_loop.simps) simp
        moreover have "ucs_post grid st0 U (Inr (Some (path, gen, exp + 1)))"
          using c opt by (simp add: ucs_post_def)
        ultimately show ?thesis by blast
      next
        case False
        show ?thesis
        proof (cases "get_neighbors cur grid")
          case (Inl err)
          have "ucs_loop ident grid heap cf cost gen exp = Some (Inl err)"
            using Cons hp False Inl by (subst ucs_loop.simps) simp
          moreover have "ucs_post grid st0 U (Inl err)"
            using curU Inl by (auto simp: ucs_post_def)
          ultimately show ?thesis by blast
        next
          case (Inr nb)
          obtain heap'' cf' cost' gen' where
            relax: "ucs_relax ident c cur nb (heap', cf, cost, gen) = (heap'', cf', cost', gen')"
            by (cases "ucs_relax ident c cur nb (heap', cf, cost, gen)") auto
          note step = ucs_inv_step[OF fin cl inv Cons pop False Inr relax]
          from step(2) have "((heap'', cost'), (heap, cost)) \<in>
              inv_image (less_than <*lex*> less_than)
                (\<lambda>(heap, cost :: cost_so_far). (card (U - dom cost), length heap))"
            by auto
          from less.hyps[OF this step(1), of gen' "exp + 1"] obtain r where
            r: "ucs_loop ident grid heap'' cf' cost' gen' (exp + 1) = Some r" "ucs_post grid st0 U r"
            by blast
          have "ucs_loop ident grid heap cf cost gen exp = Some r"
            using Cons hp False Inr relax r(1) by (subst ucs_loop.simps) simp
          with r(2) show ?thesis by blast
        qed
      qed
    qed
  qed
qed

lemma ucs_inv_start:
  "ucs_inv grid st (universe grid st) [(0, i, st)] [st \<mapsto> (None, None)] [st \<mapsto> 0]"
proof -
  have ch: "chain [st \<mapsto> (None, None)] st []" by (rule chain.chain_start) simp
  have j0: "heap_states [(0, i, st)] \<subseteq> universe grid st"
    by (simp add: heap_states_def start_in_universe)
  have j1: "[st \<mapsto> 0::nat] st = Some 0" by simp
  have j2: "\<forall>c i' s. (c, i', s) \<in> set [(0, i, st)] \<longrightarrow> [st \<mapsto> 0::nat] s = Some c" by simp
  have j3: "\<forall>s k. [st \<mapsto> 0::nat] s = Some k \<longrightarrow>
        (\<exists>plan. length plan = k \<and> exec grid st plan = Some s \<and> chain [st \<mapsto> (None, None)] s plan)"
  proof (intro allI impI)
    fix s k assume "[st \<mapsto> 0::nat] s = Some k"
    then have "s = st" "k = 0" by (auto split: if_splits)
    with ch show "\<exists>plan. length plan = k \<and> exec grid st plan = Some s \<and> chain [st \<mapsto> (None, None)] s plan"
      by (intro exI[of _ "[]"]) simp
  qed
  have j4: "\<forall>s k. [st \<mapsto> 0::nat] s = Some k \<longrightarrow> s \<notin> heap_states [(0, i, st)] \<longrightarrow>
        dirty s \<noteq> {} \<and>
        (\<exists>nb. get_neighbors s grid = Inr nb \<and>
           (\<forall>a n. (a, n) \<in> set nb \<longrightarrow> (\<exists>k'. [st \<mapsto> 0::nat] n = Some k' \<and> k' \<le> k + 1)))"
    by (simp add: heap_states_def)
  have j5: "\<forall>s k c i' s'. [st \<mapsto> 0::nat] s = Some k \<longrightarrow> (c, i', s') \<in> set [(0, i, st)] \<longrightarrow> k \<le> c + 1"
    by (simp split: if_splits)
  have j6: "\<forall>s. [st \<mapsto> (None :: action option, None :: state option)] s \<noteq> None \<longrightarrow> [st \<mapsto> 0::nat] s \<noteq> None"
    by simp
  from j0 j1 j2 j3 j4 j5 j6 show ?thesis unfolding ucs_inv_def by blast
qed

lemma ucs_search_total:
  "\<exists>r. ucs_search ident st grid = Some r \<and> ucs_post grid st (universe grid st) r"
  unfolding ucs_search_def
  by (rule ucs_loop_total[OF finite_universe closed_universe ucs_inv_start])

lemma rectangular_neighbors:
  assumes "rectangular grid" and "position st = Some p"
  shows "\<exists>nb. get_neighbors st grid = Inr nb"
proof -
  obtain r c where p: "p = (r, c)" by (cases p)
  have rows: "\<And>nr. 0 \<le> nr \<Longrightarrow> nr < int (length grid) \<Longrightarrow> length (grid ! nat nr) = length (grid ! 0)"
    using assms(1) by (simp add: rectangular_def list_all_length)
  have "\<And>ms nb. \<exists>out. move_neighbors st grid r c ms nb = Inr out"
  proof -
    fix ms nb show "\<exists>out. move_neighbors st grid r c ms nb = Inr out"
    proof (induction ms arbitrary: nb)
      case Nil
      then show ?case by simp
    next
      case (Cons m ms)
      obtain a dr dc where m: "m = (a, dr, dc)" by (cases m)
      show ?case using Cons.IH rows[of "r + dr"] unfolding m by (simp add: Let_def)
    qed
  qed
  then obtain mv where "move_neighbors st grid r c MOVES [] = Inr mv" by blast
  with assms(2) p show ?thesis by (simp add: get_neighbors_def)
qed

lemma universe_position:
  assumes "s \<in> universe grid st" and "position st = Some p"
  shows "\<exists>q. position s = Some q"
  using assms by (auto simp: universe_def State_def)

subsection \<open>Termination and optimality\<close>

lemma no_error_in_universe:
  assumes "rectangular grid" and "position st \<noteq> None" and "s \<in> universe grid st"
  shows "get_neighbors s grid \<noteq> Inl e"
proof -
  from assms(2) obtain p where "position st = Some p" by auto
  from universe_position[OF assms(3) this] obtain q where "position s = Some q" by blast
  from rectangular_neighbors[OF assms(1) this] show ?thesis by auto
qed

text \<open>
  Claim C9. Depth-first search and uniform-cost search return on every grid and every
  start state: the value of each loop is defined. On a rectangular grid, from a start
  state that has a position, neither raises: each ends by popping a goal or with an empty
  frontier.
\<close>

theorem searches_terminate:
  "(\<exists>r. dfs_search st grid = Some r \<and>
        (rectangular grid \<and> position st \<noteq> None \<longrightarrow> (\<exists>res. r = Inr res))) \<and>
   (\<exists>r. ucs_search ident st grid = Some r \<and>
        (rectangular grid \<and> position st \<noteq> None \<longrightarrow> (\<exists>res. r = Inr res)))"
proof
  from dfs_search_terminates[of st grid] obtain r where r: "dfs_search st grid = Some r"
    and err: "\<forall>e. r = Inl e \<longrightarrow> (\<exists>s. s \<in> universe grid st \<and> get_neighbors s grid = Inl e)"
    by blast
  have "rectangular grid \<and> position st \<noteq> None \<longrightarrow> (\<exists>res. r = Inr res)"
  proof
    assume a: "rectangular grid \<and> position st \<noteq> None"
    show "\<exists>res. r = Inr res"
    proof (cases r)
      case (Inl e)
      with err obtain s where "s \<in> universe grid st" "get_neighbors s grid = Inl e" by blast
      with no_error_in_universe[of grid st s e] a show ?thesis by blast
    next
      case (Inr res)
      then show ?thesis by blast
    qed
  qed
  with r show "\<exists>r. dfs_search st grid = Some r \<and>
        (rectangular grid \<and> position st \<noteq> None \<longrightarrow> (\<exists>res. r = Inr res))" by blast
next
  from ucs_search_total[of ident st grid] obtain r where r: "ucs_search ident st grid = Some r"
    and post: "ucs_post grid st (universe grid st) r" by blast
  have "rectangular grid \<and> position st \<noteq> None \<longrightarrow> (\<exists>res. r = Inr res)"
  proof
    assume a: "rectangular grid \<and> position st \<noteq> None"
    show "\<exists>res. r = Inr res"
    proof (cases r)
      case (Inl e)
      with post obtain s where "s \<in> universe grid st" "get_neighbors s grid = Inl e"
        by (auto simp: ucs_post_def)
      with no_error_in_universe[of grid st s e] a show ?thesis by blast
    next
      case (Inr res)
      then show ?thesis by blast
    qed
  qed
  with r show "\<exists>r. ucs_search ident st grid = Some r \<and>
        (rectangular grid \<and> position st \<noteq> None \<longrightarrow> (\<exists>res. r = Inr res))" by blast
qed

theorem searches_terminate_witness:
  "rectangular [''_#*''] \<and> position (State (Some (0, 0)) {(0, 2)}) \<noteq> None \<and>
   (\<exists>r. dfs_search (State (Some (0, 0)) {(0, 2)}) [''_#*''] = Some r \<and> (\<exists>res. r = Inr res)) \<and>
   (\<exists>r. ucs_search int (State (Some (0, 0)) {(0, 2)}) [''_#*''] = Some r \<and> (\<exists>res. r = Inr res))"
proof -
  have h: "rectangular [''_#*''] \<and> position (State (Some (0, 0)) {(0, 2)}) \<noteq> None"
    by (simp add: rectangular_def State_def)
  from searches_terminate[of "State (Some (0, 0)) {(0, 2)}" "[''_#*'']" int] h
  show ?thesis by blast
qed

lemma move_neighbors_error: "move_neighbors st grid r c ms nb = Inl e \<Longrightarrow> e = IndexError"
proof (induction ms arbitrary: nb)
  case Nil
  then show ?case by simp
next
  case (Cons m ms)
  obtain a dr dc where m: "m = (a, dr, dc)" by (cases m)
  have "move_neighbors st grid r c (m # ms) nb = Inl IndexError \<or>
      (\<exists>nb'. move_neighbors st grid r c (m # ms) nb = move_neighbors st grid r c ms nb')"
    unfolding m by (simp add: Let_def) blast
  with Cons.prems show ?case using Cons.IH by auto
qed

lemma get_neighbors_error:
  "get_neighbors st grid = Inl e \<Longrightarrow> position st \<noteq> None \<Longrightarrow> e = IndexError"
  by (auto simp: get_neighbors_def split: option.splits sum.splits if_splits
      dest: move_neighbors_error)

text \<open>
  Claim C1. From a start state for which some action sequence clears all dirt,
  uniform-cost search finds and prints an action sequence that clears all dirt, and no
  action sequence that clears all dirt is shorter; every action costs 1. The one
  exception is a grid that is not rectangular, where the search may end in the IndexError
  of the successor generator.
\<close>

theorem ucs_optimal:
  assumes "clears grid st plan"
  shows "(\<exists>path g e. ucs_search ident st grid = Some (Inr (Some (path, g, e))) \<and>
            ucs ident st grid = Some (Inr (report path g e)) \<and>
            clears grid st path \<and> (\<forall>p. clears grid st p \<longrightarrow> length path \<le> length p)) \<or>
         (\<not> rectangular grid \<and> ucs_search ident st grid = Some (Inl IndexError))"
proof -
  from ucs_search_total[of ident st grid] obtain r where r: "ucs_search ident st grid = Some r"
    and post: "ucs_post grid st (universe grid st) r" by blast
  show ?thesis
  proof (cases r)
    case (Inl err)
    with post obtain s where s: "s \<in> universe grid st" "get_neighbors s grid = Inl err"
      by (auto simp: ucs_post_def)
    show ?thesis
    proof (cases "position st")
      case (Some p)
      from universe_position[OF s(1) Some] have ps: "position s \<noteq> None" by auto
      from get_neighbors_error[OF s(2) ps] have "err = IndexError" .
      moreover have "\<not> rectangular grid"
      proof
        assume "rectangular grid"
        from no_error_in_universe[OF this _ s(1), of err] Some s(2) show False by simp
      qed
      ultimately show ?thesis using r Inl by simp
    next
      case None
      show ?thesis
      proof (cases "dirty st = {}")
        case True
        from ucs_search_clean[OF True, of ident grid] r Inl show ?thesis by simp
      next
        case False
        from None have gn: "get_neighbors st grid = Inl TypeError" by (simp add: get_neighbors_def)
        from assms False gn have False
          by (cases plan) (auto simp: clears_def split: option.splits)
        then show ?thesis ..
      qed
    qed
  next
    case (Inr res)
    show ?thesis
    proof (cases res)
      case None
      with Inr post assms show ?thesis by (simp add: ucs_post_def)
    next
      case (Some found)
      obtain path g e where f: "found = (path, g, e)" by (cases found)
      from post Inr Some f have "clears grid st path"
        and "\<forall>p. clears grid st p \<longrightarrow> length path \<le> length p"
        by (simp_all add: ucs_post_def)
      moreover from r Inr Some f have "ucs_search ident st grid = Some (Inr (Some (path, g, e)))"
        by simp
      moreover from this have "ucs ident st grid = Some (Inr (report path g e))"
        by (simp add: ucs_def printed_def)
      ultimately show ?thesis by blast
    qed
  qed
qed

lemma clears_example: "clears [''_*#''] (State (Some (0, 0)) {(0, 1)}) [''E'', ''V'']"
  by (simp add: clears_def get_neighbors_def MOVES_def State_def)

theorem ucs_optimal_witness:
  "clears [''_*#''] (State (Some (0, 0)) {(0, 1)}) [''E'', ''V''] \<and> rectangular [''_*#''] \<and>
   (\<exists>path g e. ucs_search int (State (Some (0, 0)) {(0, 1)}) [''_*#''] = Some (Inr (Some (path, g, e))) \<and>
     ucs int (State (Some (0, 0)) {(0, 1)}) [''_*#''] = Some (Inr (report path g e)) \<and>
     clears [''_*#''] (State (Some (0, 0)) {(0, 1)}) path \<and>
     (\<forall>p. clears [''_*#''] (State (Some (0, 0)) {(0, 1)}) p \<longrightarrow> length path \<le> length p))"
proof -
  have h: "rectangular [''_*#'']" by (simp add: rectangular_def)
  from ucs_optimal[OF clears_example, of int] h clears_example show ?thesis by blast
qed

subsection \<open>Ties on the frontier\<close>

lemma same_order_le:
  "same_order ident ident' \<Longrightarrow> ident m \<le> ident n \<longleftrightarrow> ident' m \<le> ident' n"
  unfolding same_order_def by (metis not_le)

lemma same_order_sym: "same_order ident ident' \<Longrightarrow> same_order ident' ident"
  by (simp add: same_order_def)

lemma entry_rel_sym: "entry_rel ident ident' e e' \<Longrightarrow> entry_rel ident' ident e' e"
  by (cases e; cases e') auto

lemma entry_rel_le:
  assumes "same_order ident ident'" and "entry_rel ident ident' x x'" and "entry_rel ident ident' y y'"
  shows "entry_le x y \<longleftrightarrow> entry_le x' y'"
proof -
  obtain c i s where x: "x = (c, i, s)" by (cases x)
  obtain c2 i2 s2 where y: "y = (c2, i2, s2)" by (cases y)
  obtain i' where x': "x' = (c, i', s)" using assms(2) x by (cases x') auto
  obtain i2' where y': "y' = (c2, i2', s2)" using assms(3) y by (cases y') auto
  from assms(2) x x' obtain m where m: "i = ident m" "i' = ident' m" by auto
  from assms(3) y y' obtain n where n: "i2 = ident n" "i2' = ident' n" by auto
  from same_order_le[OF assms(1), of m n] show ?thesis
    unfolding x y x' y' m n by simp
qed

lemma heap_least_rel:
  assumes so: "same_order ident ident'"
  shows "list_all2 (entry_rel ident ident') es es' \<Longrightarrow> entry_rel ident ident' e e' \<Longrightarrow>
    heap_least e es = (m, rest) \<Longrightarrow> heap_least e' es' = (m', rest') \<Longrightarrow>
    entry_rel ident ident' m m' \<and> list_all2 (entry_rel ident ident') rest rest'"
proof (induction es es' arbitrary: e e' m rest m' rest' rule: list_all2_induct)
  case Nil
  then show ?case by simp
next
  case (Cons x xs x' xs')
  obtain m1 r1 where h1: "heap_least x xs = (m1, r1)" by (cases "heap_least x xs")
  obtain m1' r1' where h1': "heap_least x' xs' = (m1', r1')" by (cases "heap_least x' xs'")
  from Cons.IH[OF Cons.hyps(1) h1 h1'] have ih: "entry_rel ident ident' m1 m1'"
    "list_all2 (entry_rel ident ident') r1 r1'" by simp_all
  from entry_rel_le[OF so Cons.prems(1) ih(1)] have le: "entry_le e m1 \<longleftrightarrow> entry_le e' m1'" .
  show ?case
  proof (cases "entry_le e m1")
    case True
    with le Cons.prems h1 h1' have "m = e" "m' = e'" "rest = x # xs" "rest' = x' # xs'" by auto
    with Cons.prems(1) Cons.hyps show ?thesis by simp
  next
    case False
    with le Cons.prems h1 h1' have "m = m1" "m' = m1'" "rest = e # r1" "rest' = e' # r1'" by auto
    with Cons.prems(1) ih show ?thesis by simp
  qed
qed

lemma heappop_rel:
  assumes so: "same_order ident ident'" and rel: "list_all2 (entry_rel ident ident') heap heap'"
  shows "(heap = [] \<and> heap' = []) \<or>
    (heap \<noteq> [] \<and> heap' \<noteq> [] \<and>
     (\<exists>c i i' cur rest rest'. heappop heap = Inr ((c, i, cur), rest) \<and>
        heappop heap' = Inr ((c, i', cur), rest') \<and> list_all2 (entry_rel ident ident') rest rest'))"
proof (cases heap)
  case Nil
  with rel show ?thesis by simp
next
  case (Cons e es)
  with rel obtain e' es' where h': "heap' = e' # es'" and e: "entry_rel ident ident' e e'"
    and es: "list_all2 (entry_rel ident ident') es es'"
    by (auto simp: list_all2_Cons1)
  obtain m rest where hl: "heap_least e es = (m, rest)" by (cases "heap_least e es")
  obtain m' rest' where hl': "heap_least e' es' = (m', rest')" by (cases "heap_least e' es'")
  from heap_least_rel[OF so es e hl hl'] have mm: "entry_rel ident ident' m m'"
    and rr: "list_all2 (entry_rel ident ident') rest rest'" by simp_all
  obtain c i cur where m: "m = (c, i, cur)" by (cases m)
  from mm m obtain i' where m': "m' = (c, i', cur)" by (cases m') auto
  from Cons h' hl hl' m m' rr show ?thesis by (simp add: heappop_def)
qed

lemma ucs_relax_rel:
  "list_all2 (entry_rel ident ident') h h' \<Longrightarrow>
   ucs_relax ident c cur nb (h, cf, cost, gen) = (h1, cf1, cost1, gen1) \<Longrightarrow>
   \<exists>h1'. ucs_relax ident' c cur nb (h', cf, cost, gen) = (h1', cf1, cost1, gen1) \<and>
     list_all2 (entry_rel ident ident') h1 h1'"
proof (induction nb arbitrary: h h' cf cost gen)
  case Nil
  then show ?case by simp
next
  case (Cons x nb)
  obtain a n where x: "x = (a, n)" by (cases x)
  let ?e = "(c + 1, ident (gen + 1), n)"
  let ?e' = "(c + 1, ident' (gen + 1), n)"
  have rel: "list_all2 (entry_rel ident ident') (heappush h ?e) (heappush h' ?e')"
    using Cons.prems(1) by (auto simp: heappush_def intro!: list_all2_appendI)
  have push: ?case
    if run: "ucs_relax ident c cur nb (heappush h ?e, cf(n \<mapsto> (Some a, Some cur)), cost(n \<mapsto> c + 1), gen + 1)
      = (h1, cf1, cost1, gen1)"
      and eq: "\<And>idt hh. ucs_relax idt c cur (x # nb) (hh, cf, cost, gen) =
        ucs_relax idt c cur nb (heappush hh (c + 1, idt (gen + 1), n), cf(n \<mapsto> (Some a, Some cur)), cost(n \<mapsto> c + 1), gen + 1)"
  proof -
    from Cons.IH[OF rel run] obtain h1' where
      "ucs_relax ident' c cur nb (heappush h' ?e', cf(n \<mapsto> (Some a, Some cur)), cost(n \<mapsto> c + 1), gen + 1)
        = (h1', cf1, cost1, gen1)" and "list_all2 (entry_rel ident ident') h1 h1'" by blast
    then show ?thesis unfolding eq by blast
  qed
  have skip: ?case
    if eq: "\<And>idt hh. ucs_relax idt c cur (x # nb) (hh, cf, cost, gen) =
        ucs_relax idt c cur nb (hh, cf, cost, gen)"
  proof -
    from Cons.prems(2) have "ucs_relax ident c cur nb (h, cf, cost, gen) = (h1, cf1, cost1, gen1)"
      unfolding eq .
    from Cons.IH[OF Cons.prems(1) this] show ?thesis unfolding eq .
  qed
  show ?case
  proof (cases "cost n")
    case None
    have eq: "\<And>idt hh. ucs_relax idt c cur (x # nb) (hh, cf, cost, gen) =
        ucs_relax idt c cur nb (heappush hh (c + 1, idt (gen + 1), n), cf(n \<mapsto> (Some a, Some cur)), cost(n \<mapsto> c + 1), gen + 1)"
      using None x by simp
    from Cons.prems(2) have "ucs_relax ident c cur nb (heappush h ?e, cf(n \<mapsto> (Some a, Some cur)), cost(n \<mapsto> c + 1), gen + 1)
      = (h1, cf1, cost1, gen1)" unfolding eq .
    from push[OF this eq] show ?thesis .
  next
    case (Some old)
    show ?thesis
    proof (cases "c + 1 < old")
      case True
      have eq: "\<And>idt hh. ucs_relax idt c cur (x # nb) (hh, cf, cost, gen) =
        ucs_relax idt c cur nb (heappush hh (c + 1, idt (gen + 1), n), cf(n \<mapsto> (Some a, Some cur)), cost(n \<mapsto> c + 1), gen + 1)"
        using Some True x by simp
      from Cons.prems(2) have "ucs_relax ident c cur nb (heappush h ?e, cf(n \<mapsto> (Some a, Some cur)), cost(n \<mapsto> c + 1), gen + 1)
        = (h1, cf1, cost1, gen1)" unfolding eq .
      from push[OF this eq] show ?thesis .
    next
      case False
      have eq: "\<And>idt hh. ucs_relax idt c cur (x # nb) (hh, cf, cost, gen) =
        ucs_relax idt c cur nb (hh, cf, cost, gen)"
        using Some False x by simp
      from skip[OF eq] show ?thesis .
    qed
  qed
qed

lemma ucs_loop_rel:
  assumes so: "same_order ident ident'"
    and run: "ucs_loop ident grid heap cf cost gen exp = Some r"
  shows "\<forall>heap'. list_all2 (entry_rel ident ident') heap heap' \<longrightarrow>
     ucs_loop ident' grid heap' cf cost gen exp = Some r"
proof -
  have "ident = ident \<longrightarrow> (\<forall>heap'. list_all2 (entry_rel ident ident') heap heap' \<longrightarrow>
     ucs_loop ident' grid heap' cf cost gen exp = Some r)"
  proof (rule ucs_loop.raw_induct[where P = "\<lambda>idt grid heap cf cost gen exp r.
      idt = ident \<longrightarrow> (\<forall>heap'. list_all2 (entry_rel ident ident') heap heap' \<longrightarrow>
        ucs_loop ident' grid heap' cf cost gen exp = Some r)", OF _ run], goal_cases)
    case (1 loop idt grid heap cf cost gen exp r)
    note IH = "1"(1) and body = "1"(2)
    show ?case
    proof (intro impI allI)
      fix heap2 assume idt: "idt = ident" and rel: "list_all2 (entry_rel ident ident') heap heap2"
      from heappop_rel[OF so rel] show "ucs_loop ident' grid heap2 cf cost gen exp = Some r"
      proof (elim disjE conjE exE)
        assume "heap = []" "heap2 = []"
        with body show ?thesis by (subst ucs_loop.simps) simp
      next
        fix c i i' cur rest rest'
        assume ne: "heap \<noteq> []" "heap2 \<noteq> []"
          and hp: "heappop heap = Inr ((c, i, cur), rest)"
          and hp': "heappop heap2 = Inr ((c, i', cur), rest')"
          and rr: "list_all2 (entry_rel ident ident') rest rest'"
        show ?thesis
        proof (cases "dirty cur = {}")
          case True
          with body ne hp hp' show ?thesis by (subst ucs_loop.simps) simp
        next
          case False
          show ?thesis
          proof (cases "get_neighbors cur grid")
            case (Inl e)
            with body ne hp hp' False show ?thesis by (subst ucs_loop.simps) simp
          next
            case (Inr nb)
            obtain h1 cf1 cost1 gen1 where
              rx: "ucs_relax ident c cur nb (rest, cf, cost, gen) = (h1, cf1, cost1, gen1)"
              by (cases "ucs_relax ident c cur nb (rest, cf, cost, gen)") auto
            from ucs_relax_rel[OF rr rx] obtain h1' where
              rx': "ucs_relax ident' c cur nb (rest', cf, cost, gen) = (h1', cf1, cost1, gen1)"
              and r1: "list_all2 (entry_rel ident ident') h1 h1'" by blast
            from body ne hp False Inr rx idt have "loop ident grid h1 cf1 cost1 gen1 (exp + 1) = Some r"
              by simp
            from IH[OF this] r1 have "ucs_loop ident' grid h1' cf1 cost1 gen1 (exp + 1) = Some r"
              by blast
            with ne hp' False Inr rx' show ?thesis by (subst ucs_loop.simps) simp
          qed
        qed
      qed
    qed
  qed
  then show ?thesis by simp
qed

lemma ucs_search_same_order:
  assumes so: "same_order ident ident'"
  shows "ucs_search ident st grid = ucs_search ident' st grid"
proof -
  have rel: "list_all2 (entry_rel ident ident') [(0, ident 0, st)] [(0, ident' 0, st)]"
    by auto
  have rel': "list_all2 (entry_rel ident' ident) [(0, ident' 0, st)] [(0, ident 0, st)]"
    by auto
  show ?thesis
  proof (cases "ucs_search ident st grid")
    case (Some r)
    from ucs_loop_rel[OF so Some[unfolded ucs_search_def]] rel Some show ?thesis
      by (simp add: ucs_search_def)
  next
    case None
    show ?thesis
    proof (cases "ucs_search ident' st grid")
      case (Some r)
      from ucs_loop_rel[OF same_order_sym[OF so] Some[unfolded ucs_search_def]] rel' None
      show ?thesis by (simp add: ucs_search_def)
    next
      case n: None
      with None show ?thesis by simp
    qed
  qed
qed

lemma str_4: "str 4 = ''4''" by (simp add: str.simps digit_def)
lemma str_5: "str 5 = ''5''" by (simp add: str.simps digit_def)

lemma ucs_counter_run:
  "ucs_search int (State (Some (0, 2)) {(0, 3)}) [''___*''] = Some (Inr (Some ([''E'', ''V''], 4, 4)))"
  by (simp add: ucs_eval)

lemma ucs_swapped_run:
  "ucs_search (\<lambda>k. if k = 3 then 4 else if k = 4 then 3 else int k)
     (State (Some (0, 2)) {(0, 3)}) [''___*''] = Some (Inr (Some ([''E'', ''V''], 4, 5)))"
  by (simp add: ucs_eval)

text \<open>
  Claim C2, as stated, fails: the frontier orders equal-cost entries by the identities of
  the State objects, not by an insertion counter. On the one-row world with the agent in
  the third of four cells and dirt in the fourth, identities that grow with the pushes
  give 4 expansions, and identities that exchange the third and the fourth push give 5.
\<close>

theorem ucs_identity_dependent:
  "inj (\<lambda>k. if k = 3 then 4 else if k = 4 then 3 else int k) \<and>
   ucs int (State (Some (0, 2)) {(0, 3)}) [''___*''] =
     Some (Inr [''E'', ''V'', ''4 nodes generated'', ''4 nodes expanded'']) \<and>
   ucs (\<lambda>k. if k = 3 then 4 else if k = 4 then 3 else int k) (State (Some (0, 2)) {(0, 3)}) [''___*''] =
     Some (Inr [''E'', ''V'', ''4 nodes generated'', ''5 nodes expanded''])"
proof -
  have "inj (\<lambda>k. if k = 3 then 4 else if k = 4 then 3 else int k)"
    by (auto simp: inj_def split: if_splits)
  then show ?thesis
    by (simp add: ucs_def ucs_counter_run ucs_swapped_run printed_def report_def str_4 str_5)
qed

text \<open>
  Claim C2, amended. The output of uniform-cost search on a world is the same for any two
  assignments of identities that compare the pushed State objects alike; in particular,
  when identities grow with the pushes, it is the output obtained with the number of the
  push as tie-break. (Depth-first search takes no identity: its output is a function of
  the world alone.)
\<close>

theorem ucs_identity_order:
  "(same_order ident ident' \<longrightarrow> ucs ident st grid = ucs ident' st grid) \<and>
   (strict_mono ident \<longrightarrow> ucs ident st grid = ucs int st grid)"
proof
  show "same_order ident ident' \<longrightarrow> ucs ident st grid = ucs ident' st grid"
    by (simp add: ucs_def ucs_search_same_order)
next
  show "strict_mono ident \<longrightarrow> ucs ident st grid = ucs int st grid"
  proof
    assume "strict_mono ident"
    then have "same_order ident int" by (simp add: same_order_def strict_mono_less)
    then show "ucs ident st grid = ucs int st grid"
      by (simp add: ucs_def ucs_search_same_order)
  qed
qed

theorem ucs_identity_order_witness:
  "same_order (\<lambda>k. 2 * int k + 7) int \<and> strict_mono (\<lambda>k. 2 * int k + 7) \<and>
   ucs (\<lambda>k. 2 * int k + 7) (State (Some (0, 2)) {(0, 3)}) [''___*''] =
     Some (Inr [''E'', ''V'', ''4 nodes generated'', ''4 nodes expanded''])"
proof -
  have h: "same_order (\<lambda>k. 2 * int k + 7) int" by (simp add: same_order_def)
  have m: "strict_mono (\<lambda>k. 2 * int k + 7)" by (simp add: strict_mono_def)
  from ucs_identity_order[of "\<lambda>k. 2 * int k + 7" int "State (Some (0, 2)) {(0, 3)}" "[''___*'']"] h
  have "ucs (\<lambda>k. 2 * int k + 7) (State (Some (0, 2)) {(0, 3)}) [''___*''] =
    ucs int (State (Some (0, 2)) {(0, 3)}) [''___*'']" by blast
  also have "\<dots> = Some (Inr [''E'', ''V'', ''4 nodes generated'', ''4 nodes expanded''])"
    by (simp add: ucs_def ucs_counter_run printed_def report_def str_4)
  finally show ?thesis using h m by blast
qed

end
